theory Spec2Isabelle
  imports
    Main
    "HOL-Library.Word"
    "HOL-Library.Char_ord"
    "HOL-Library.List_Lexorder"
begin

section \<open>The TTL index expiration engine of Tendis (IndexManager)\<close>

text \<open>
  A shallow embedding of \<^verbatim>\<open>src/tendisplus/server/index_manager.cpp\<close>.
  Every member function of \<^verbatim>\<open>IndexManager\<close> becomes a function from the manager's state
  (and from what its collaborators answer during the call) to its return value and the
  new state. One call of a job is one function application: the model describes each job
  run from its first statement to its return without another thread touching the same
  shard in between.
\<close>

subsection \<open>Status and Expected\<close>

text \<open>
  \<^verbatim>\<open>Status\<close> carries an error code and a message; \<^verbatim>\<open>Status::ok()\<close> holds for the code
  \<^verbatim>\<open>ERR_OK\<close>. The codes listed are the ones the two source files name; \<open>ERR_OTHER\<close>
  stands for the remaining codes of the enumeration. \<^verbatim>\<open>Expected<T>\<close> is a sum: \<open>Inl\<close> is
  the failed case and carries the status, \<open>Inr\<close> holds the value.
\<close>

datatype ErrorCodes = ERR_OK | ERR_BUSY | ERR_INTERNAL | ERR_NOTFOUND | ERR_OTHER nat

record Status =
  st_code :: ErrorCodes
  st_msg :: string

definition ok :: "Status \<Rightarrow> bool" where
  "ok s = (st_code s = ERR_OK)"

definition OK :: Status where
  "OK = \<lparr>st_code = ERR_OK, st_msg = ''''\<rparr>"

type_synonym 'a Expected = "Status + 'a"

subsection \<open>TTL index entries, stores, transactions and cursors\<close>

text \<open>
  Modelled from the spec: the class \<^verbatim>\<open>TTLIndex\<close> is declared outside the two source files.
  An entry has the primary key, the database id and the type tag that the deleter hands to
  \<^verbatim>\<open>expireKeyIfNeeded\<close>, its expiration time, and the byte string \<^verbatim>\<open>encode()\<close> returns,
  which is its key in the ordered TTL index.
\<close>

record TTLIndex =
  getPriKey :: string
  getDbId :: nat
  getType :: nat
  getTTL :: nat
  encode :: string

text \<open>
  The storage engine's transaction and TTL index cursor (\<^verbatim>\<open>createTTLIndexCursor\<close>,
  \<^verbatim>\<open>seek\<close>, \<^verbatim>\<open>key\<close>, \<^verbatim>\<open>next\<close>) are outside the two source files; the definitions
  that follow take them from the spec's contract of the storage engine: a cursor yielding
  the entries of the TTL index in ordered key form, bounded at the time it was created
  with.
\<close>

text \<open>
  Modelled from the spec: the class \<^verbatim>\<open>Transaction\<close> is outside the source files. A
  transaction sees the TTL index as the list of its entries in key order, up to the point
  where a read fails; \<open>cursorEnd\<close> is the failed status a read returns there (end of the
  index, or a read error).
\<close>

record Transaction =
  ttlIndex :: "TTLIndex list"
  cursorEnd :: Status

text \<open>
  Modelled from the spec: the class \<^verbatim>\<open>TTLIndexCursor\<close> is outside the source files. A
  cursor is the entries from its position on, the time bound, and the failed status of
  the transaction.
\<close>

record TTLIndexCursor =
  pending :: "TTLIndex list"
  until :: nat
  endStatus :: Status

text \<open>
  Modelled from the spec: \<^verbatim>\<open>Transaction::createTTLIndexCursor\<close> is outside the source
  files. The new cursor stands at the first entry of the index.
\<close>

definition createTTLIndexCursor :: "Transaction \<Rightarrow> nat \<Rightarrow> TTLIndexCursor" where
  "createTTLIndexCursor txn now =
     \<lparr>pending = ttlIndex txn, until = now, endStatus = cursorEnd txn\<rparr>"

text \<open>
  Modelled from the spec: \<^verbatim>\<open>TTLIndexCursor::seek\<close> is outside the source files. It moves
  to the first entry whose key is not below the target in bytewise order.
\<close>

definition cursor_seek :: "string \<Rightarrow> TTLIndexCursor \<Rightarrow> TTLIndexCursor" where
  "cursor_seek target c = c\<lparr>pending := dropWhile (\<lambda>e. encode e < target) (pending c)\<rparr>"

text \<open>
  Modelled from the spec: \<^verbatim>\<open>TTLIndexCursor::key\<close> is outside the source files. It is the
  key of the entry under the cursor, and fails when there is none.
\<close>

definition cursor_key :: "TTLIndexCursor \<Rightarrow> string Expected" where
  "cursor_key c = (case pending c of [] \<Rightarrow> Inl (endStatus c) | e # _ \<Rightarrow> Inr (encode e))"

text \<open>
  Modelled from the spec: \<^verbatim>\<open>TTLIndexCursor::next\<close> is outside the source files. It
  returns the entry under the cursor and moves past it; it fails when there is none, or
  when that entry expires after the cursor's time bound.
\<close>

definition cursor_next :: "TTLIndexCursor \<Rightarrow> TTLIndex Expected \<times> TTLIndexCursor" where
  "cursor_next c =
     (case pending c of
        [] \<Rightarrow> (Inl (endStatus c), c)
      | e # es \<Rightarrow>
          if getTTL e > until c then (Inl (endStatus c), c)
          else (Inr e, c\<lparr>pending := es\<rparr>))"

text \<open>
  The part of \<^verbatim>\<open>KVStore\<close> the scanner consults through the handle \<^verbatim>\<open>getDb\<close> returns:
  the mode, whether the store is open, its clock, and what \<^verbatim>\<open>createTransaction\<close>
  answers.
\<close>

datatype StoreMode = READ_WRITE | REPLICATE_ONLY | STORE_NONE

record KVStore =
  getMode :: StoreMode
  isOpen :: bool
  getCurrentTime :: nat
  createTransaction :: "Transaction Expected"

text \<open>
  What the server answers to one scanner job: \<^verbatim>\<open>getParams()->clusterEnabled\<close>,
  \<^verbatim>\<open>getMigrateManager()->existMigrateTask()\<close> and
  \<^verbatim>\<open>getSegmentMgr()->getDb(session, storeId, LOCK_IS, true)\<close>.
\<close>

record ServerView =
  clusterEnabled :: bool
  existMigrateTask :: bool
  getDb :: "nat \<Rightarrow> KVStore Expected"

subsection \<open>The state of the manager\<close>

text \<open>
  The members of \<^verbatim>\<open>IndexManager\<close>. The per-shard tables are maps indexed by the store
  id; \<^verbatim>\<open>operator[]\<close> creates a missing entry with the default value, so they are total
  functions, except \<open>scanPoints\<close>, which the scanner searches with \<^verbatim>\<open>find\<close> and which is
  therefore a partial map. The header that declares the members is outside the two source
  files: the in-flight counters are unsigned (they are initialised with \<^verbatim>\<open>0u\<close>) and are
  taken as 32 bits wide, like the local \<^verbatim>\<open>uint32_t deletes\<close> that is compared with
  \<open>delBatch\<close>; the totals are taken as 64 bits wide. \<open>runner\<close> tells whether the dispatch
  thread has been launched and not joined; a worker pool is represented by how far its
  life has come.
\<close>

datatype PoolState = NoPool | Created | Started | Stopped

record IndexManager =
  isRunning :: bool
  runner :: bool
  indexScanner :: PoolState
  keyDeleter :: PoolState
  scanPoints :: "nat \<rightharpoonup> string"
  expiredKeys :: "nat \<Rightarrow> TTLIndex list"
  scanJobStatus :: "nat \<Rightarrow> bool"
  delJobStatus :: "nat \<Rightarrow> bool"
  disableStatus :: "nat \<Rightarrow> bool"
  scanJobCnt :: "nat \<Rightarrow> 32 word"
  delJobCnt :: "nat \<Rightarrow> 32 word"
  totalDequeue :: "64 word"
  totalEnqueue :: "64 word"
  scanBatch :: "32 word"
  scanPoolSize :: "32 word"
  delBatch :: "32 word"
  delPoolSize :: "32 word"
  pauseTime :: "32 word"

record ServerParams =
  scanCntIndexMgr :: "32 word"
  scanJobCntIndexMgr :: "32 word"
  delCntIndexMgr :: "32 word"
  delJobCntIndexMgr :: "32 word"
  pauseTimeIndexMgr :: "32 word"

text \<open>The constructor; \<open>kvStoreCount\<close> is \<^verbatim>\<open>svr->getKVStoreCount()\<close>.\<close>

definition newIndexManager :: "nat \<Rightarrow> ServerParams \<Rightarrow> IndexManager" where
  "newIndexManager kvStoreCount cfg =
     \<lparr>isRunning = False,
      runner = False,
      indexScanner = NoPool,
      keyDeleter = NoPool,
      scanPoints = (\<lambda>storeId. if storeId < kvStoreCount then Some [] else None),
      expiredKeys = (\<lambda>storeId. []),
      scanJobStatus = (\<lambda>storeId. False),
      delJobStatus = (\<lambda>storeId. False),
      disableStatus = (\<lambda>storeId. False),
      scanJobCnt = (\<lambda>storeId. 0),
      delJobCnt = (\<lambda>storeId. 0),
      totalDequeue = 0,
      totalEnqueue = 0,
      scanBatch = scanCntIndexMgr cfg,
      scanPoolSize = scanJobCntIndexMgr cfg,
      delBatch = delCntIndexMgr cfg,
      delPoolSize = delJobCntIndexMgr cfg,
      pauseTime = pauseTimeIndexMgr cfg\<rparr>"

subsection \<open>scanExpiredKeysJob\<close>

text \<open>
  The body of the \<^verbatim>\<open>while (true)\<close> loop: read the next entry, stop when the read fails;
  otherwise, under the mutex, remember the entry's key as the scan point, append the entry
  to the shard's list, count it, and stop when the list's size equals \<open>scanBatch\<close>.
\<close>

definition enqueue :: "nat \<Rightarrow> TTLIndex \<Rightarrow> IndexManager \<Rightarrow> IndexManager" where
  "enqueue storeId record m =
     m\<lparr>scanPoints := (scanPoints m)(storeId \<mapsto> encode record),
       expiredKeys := (expiredKeys m)(storeId := expiredKeys m storeId @ [record]),
       totalEnqueue := totalEnqueue m + 1\<rparr>"

function scanLoop :: "nat \<Rightarrow> TTLIndexCursor \<Rightarrow> IndexManager \<Rightarrow> IndexManager" where
  "scanLoop storeId cursor m =
     (case fst (cursor_next cursor) of
        Inl _ \<Rightarrow> m
      | Inr record \<Rightarrow>
          if length (expiredKeys (enqueue storeId record m) storeId)
               = unat (scanBatch (enqueue storeId record m))
          then enqueue storeId record m
          else scanLoop storeId (snd (cursor_next cursor)) (enqueue storeId record m))"
  by pat_completeness auto

termination
  by (relation "measure (\<lambda>(storeId, cursor, m). length (pending cursor))")
     (auto simp: cursor_next_def split: list.splits if_splits)

text \<open>
  The scope guard created after the two early returns: it decrements the shard's job
  counter and clears the busy flag whenever the function is left after that point.
\<close>

definition scanGuard :: "nat \<Rightarrow> IndexManager \<Rightarrow> IndexManager" where
  "scanGuard storeId m =
     m\<lparr>scanJobCnt := (scanJobCnt m)(storeId := scanJobCnt m storeId - 1),
       scanJobStatus := (scanJobStatus m)(storeId := False)\<rparr>"

text \<open>
  The function from the creation of the guard to its return. \<open>None\<close> is the failed
  \<^verbatim>\<open>INVARIANT\<close> (the shard has no scan point), which ends the process.
\<close>

definition scanGuarded ::
  "ServerView \<Rightarrow> nat \<Rightarrow> IndexManager \<Rightarrow> (Status \<times> IndexManager) option" where
  "scanGuarded svr storeId m =
     (if clusterEnabled svr \<and> existMigrateTask svr then Some (OK, m)
      else
        let m1 = m\<lparr>scanJobCnt := (scanJobCnt m)(storeId := scanJobCnt m storeId + 1)\<rparr> in
        (case getDb svr storeId of
           Inl status \<Rightarrow> Some (status, m1)
         | Inr store \<Rightarrow>
             (if getMode store = REPLICATE_ONLY \<or> \<not> isOpen store then Some (OK, m1)
              else
                (case createTransaction store of
                   Inl status \<Rightarrow> Some (status, m1)
                 | Inr txn \<Rightarrow>
                     (let cursor = createTTLIndexCursor txn (getCurrentTime store) in
                      (case scanPoints m1 storeId of
                         None \<Rightarrow> None
                       | Some prefix \<Rightarrow>
                           (if length prefix > 0 then
                              (case cursor_key (cursor_seek prefix cursor) of
                                 Inl status \<Rightarrow> Some (OK, m1)
                               | Inr k \<Rightarrow>
                                   Some (OK,
                                     scanLoop storeId
                                       (if prefix = k
                                        then snd (cursor_next (cursor_seek prefix cursor))
                                        else cursor_seek prefix cursor)
                                       m1))
                            else Some (OK, scanLoop storeId cursor m1))))))))"

definition scanExpiredKeysJob ::
  "ServerView \<Rightarrow> nat \<Rightarrow> IndexManager \<Rightarrow> (Status \<times> IndexManager) option" where
  "scanExpiredKeysJob svr storeId m =
     (if scanJobStatus m storeId then Some (OK, m)
      else
        let m1 = m\<lparr>scanJobStatus := (scanJobStatus m)(storeId := True)\<rparr> in
        if disableStatus m1 storeId then Some (OK, m1)
        else
          map_option (\<lambda>(status, m2). (status, scanGuard storeId m2))
            (scanGuarded svr storeId m1))"

subsection \<open>stopStore\<close>

definition stopStore :: "nat \<Rightarrow> IndexManager \<Rightarrow> Status \<times> IndexManager" where
  "stopStore storeId m =
     (OK,
      m\<lparr>expiredKeys := (expiredKeys m)(storeId := []),
        scanPoints := (scanPoints m)(storeId \<mapsto> []),
        scanJobCnt := (scanJobCnt m)(storeId := 0),
        delJobCnt := (delJobCnt m)(storeId := 0),
        disableStatus := (disableStatus m)(storeId := True)\<rparr>)"

subsection \<open>tryDelExpiredKeysJob\<close>

text \<open>
  A call of \<^verbatim>\<open>Command::expireKeyIfNeeded\<close>: the database id set on the session, the
  primary key and the type. The deleter's model returns the calls it made, in order; what
  a call does to the storage is the command layer's business.
\<close>

record ExpireCall =
  call_dbId :: nat
  call_priKey :: string
  call_type :: nat

definition expireKeyIfNeeded :: "TTLIndex \<Rightarrow> ExpireCall" where
  "expireKeyIfNeeded index =
     \<lparr>call_dbId = getDbId index, call_priKey = getPriKey index, call_type = getType index\<rparr>"

text \<open>
  The \<^verbatim>\<open>while (true)\<close> loop: leave when the list is empty; otherwise take the front
  entry, call \<^verbatim>\<open>expireKeyIfNeeded\<close>, then (under the mutex again) check the
  \<^verbatim>\<open>INVARIANT\<close> that the list is not empty, pop the front and count; leave when
  \<open>deletes\<close> equals \<open>delBatch\<close>. \<open>None\<close> is the failed \<^verbatim>\<open>INVARIANT\<close>.
\<close>

definition popFront :: "nat \<Rightarrow> IndexManager \<Rightarrow> IndexManager" where
  "popFront storeId m =
     m\<lparr>expiredKeys := (expiredKeys m)(storeId := tl (expiredKeys m storeId)),
       totalDequeue := totalDequeue m + 1\<rparr>"

function delLoop ::
  "nat \<Rightarrow> 32 word \<Rightarrow> ExpireCall list \<Rightarrow> IndexManager
     \<Rightarrow> (32 word \<times> ExpireCall list \<times> IndexManager) option" where
  "delLoop storeId deletes calls m =
     (case expiredKeys m storeId of
        [] \<Rightarrow> Some (deletes, calls, m)
      | index # _ \<Rightarrow>
          if expiredKeys m storeId = [] then None
          else if deletes + 1 = delBatch (popFront storeId m)
          then Some (deletes + 1, calls @ [expireKeyIfNeeded index], popFront storeId m)
          else delLoop storeId (deletes + 1) (calls @ [expireKeyIfNeeded index])
                 (popFront storeId m))"
  by pat_completeness auto

termination
  by (relation "measure (\<lambda>(storeId, deletes, calls, m). length (expiredKeys m storeId))")
     (auto simp: popFront_def)

text \<open>
  The job returns \<open>deletes\<close> converted to \<^verbatim>\<open>int\<close>, together with the calls it made.
\<close>

definition tryDelExpiredKeysJob ::
  "nat \<Rightarrow> IndexManager \<Rightarrow> (int \<times> ExpireCall list \<times> IndexManager) option" where
  "tryDelExpiredKeysJob storeId m =
     (if delJobStatus m storeId then Some (0, [], m)
      else
        let m1 = m\<lparr>delJobStatus := (delJobStatus m)(storeId := True)\<rparr> in
        if disableStatus m1 storeId then Some (0, [], m1)
        else
          (case delLoop storeId 0 []
                  (m1\<lparr>delJobCnt := (delJobCnt m1)(storeId := delJobCnt m1 storeId + 1)\<rparr>) of
             None \<Rightarrow> None
           | Some (deletes, calls, m2) \<Rightarrow>
               Some (sint deletes, calls,
                     m2\<lparr>delJobCnt := (delJobCnt m2)(storeId := delJobCnt m2 storeId - 1),
                        delJobStatus := (delJobStatus m2)(storeId := False)\<rparr>)))"

subsection \<open>startup, stop and the dispatch loop\<close>

text \<open>
  \<^verbatim>\<open>WorkerPool::startup\<close> is outside the two source files; \<open>poolStartup\<close> is what it
  returns for a pool name and a size. \<^verbatim>\<open>startup\<close> creates and starts the scanner pool,
  then the deleter pool, returns the first failed status, and only after both have started
  stores \<open>true\<close> into \<open>isRunning\<close> and launches the dispatch thread.
\<close>

definition startup ::
  "(string \<Rightarrow> 32 word \<Rightarrow> Status) \<Rightarrow> IndexManager \<Rightarrow> Status \<times> IndexManager" where
  "startup poolStartup m =
     (if \<not> ok (poolStartup ''tx-idx-scan'' (scanPoolSize m))
      then (poolStartup ''tx-idx-scan'' (scanPoolSize m), m\<lparr>indexScanner := Created\<rparr>)
      else if \<not> ok (poolStartup ''tx-idx-del'' (delPoolSize m))
      then (poolStartup ''tx-idx-del'' (delPoolSize m),
            m\<lparr>indexScanner := Started, keyDeleter := Created\<rparr>)
      else (OK, m\<lparr>indexScanner := Started, keyDeleter := Started,
                   isRunning := True, runner := True\<rparr>))"

text \<open>
  \<^verbatim>\<open>stop\<close> clears \<open>isRunning\<close>, joins the dispatch thread and stops both pools. Joining a
  thread that was never launched, or stopping a pool that was never created, ends the
  process: \<open>None\<close>.
\<close>

definition stop :: "IndexManager \<Rightarrow> IndexManager option" where
  "stop m =
     (if runner m \<and> indexScanner m \<noteq> NoPool \<and> keyDeleter m \<noteq> NoPool
      then Some (m\<lparr>isRunning := False, runner := False,
                   indexScanner := Stopped, keyDeleter := Stopped\<rparr>)
      else None)"

text \<open>
  What the dispatch thread does, as the sequence of its calls: scheduling a job on a pool,
  taking and releasing the mutex, reading the size of a shard's list, sleeping.
\<close>

datatype Pool = IndexScanner | KeyDeleter

datatype Job = ScanExpiredKeysJob nat | TryDelExpiredKeysJob nat

datatype Action =
    Schedule Pool Job
  | LockMutex
  | UnlockMutex
  | ReadExpiredKeys nat
  | SleepFor "32 word"

definition scheScanExpired :: "nat \<Rightarrow> Action list" where
  "scheScanExpired kvStoreCount =
     map (\<lambda>i. Schedule IndexScanner (ScanExpiredKeysJob i)) [0..<kvStoreCount]"

definition stored_with_expires :: "nat \<Rightarrow> IndexManager \<Rightarrow> nat list" where
  "stored_with_expires kvStoreCount m =
     filter (\<lambda>i. length (expiredKeys m i) > 0) [0..<kvStoreCount]"

definition schedDelExpired :: "nat \<Rightarrow> IndexManager \<Rightarrow> Action list \<times> bool" where
  "schedDelExpired kvStoreCount m =
     ([LockMutex] @ map ReadExpiredKeys [0..<kvStoreCount] @ [UnlockMutex]
        @ map (\<lambda>store_idx. Schedule KeyDeleter (TryDelExpiredKeysJob store_idx))
            (stored_with_expires kvStoreCount m),
      length (stored_with_expires kvStoreCount m) > 0)"

definition runIteration :: "nat \<Rightarrow> IndexManager \<Rightarrow> Action list" where
  "runIteration kvStoreCount m =
     scheScanExpired kvStoreCount @ fst (schedDelExpired kvStoreCount m)
       @ [SleepFor (pauseTime m)]"

text \<open>
  The \<^verbatim>\<open>while\<close> loop of \<^verbatim>\<open>run\<close>. The worker threads and \<^verbatim>\<open>stop\<close> change the manager
  while the loop runs, so the loop is given the states it observes, one for each test of
  \<open>isRunning\<close> (the lists are those read under the mutex in the same iteration). It
  returns when it observes \<open>isRunning\<close> false; \<open>None\<close> says that it is still running
  after the last observation.
\<close>

fun run :: "nat \<Rightarrow> IndexManager list \<Rightarrow> (Status \<times> Action list) option" where
  "run kvStoreCount [] = None"
| "run kvStoreCount (m # ms) =
     (if isRunning m
      then map_option (\<lambda>(status, acts). (status, runIteration kvStoreCount m @ acts))
             (run kvStoreCount ms)
      else Some (OK, []))"

text \<open>
  Whether, in a sequence of calls, the mutex is free at every \<open>Schedule\<close> and held at
  every read of a shard's list; \<open>held\<close> tells whether it is held at the start.
\<close>

fun lockDiscipline :: "bool \<Rightarrow> Action list \<Rightarrow> bool" where
  "lockDiscipline held [] = True"
| "lockDiscipline held (LockMutex # acts) = lockDiscipline True acts"
| "lockDiscipline held (UnlockMutex # acts) = lockDiscipline False acts"
| "lockDiscipline held (Schedule p j # acts) = (\<not> held \<and> lockDiscipline held acts)"
| "lockDiscipline held (ReadExpiredKeys i # acts) = (held \<and> lockDiscipline held acts)"
| "lockDiscipline held (SleepFor t # acts) = lockDiscipline held acts"

subsection \<open>The engine among its collaborators\<close>

text \<open>
  Executions of the engine: the manager, what the server's collaborators currently answer,
  and the record of the \<^verbatim>\<open>expireKeyIfNeeded\<close> calls made so far, each with the store id of
  the deleter job that made it and the mode of that store at the time. An execution is a
  sequence of events, each a whole call of one member function or a change on the
  collaborators' side (writes to a TTL index, \<^verbatim>\<open>setStoreMode\<close>, a migration task, the
  clock). \<open>None\<close> is a process ended by a failed \<^verbatim>\<open>INVARIANT\<close>.
\<close>

definition modeOf :: "ServerView \<Rightarrow> nat \<Rightarrow> StoreMode option" where
  "modeOf svr storeId =
     (case getDb svr storeId of Inl status \<Rightarrow> None | Inr store \<Rightarrow> Some (getMode store))"

record ExpireEvent =
  ev_store :: nat
  ev_mode :: "StoreMode option"
  ev_call :: ExpireCall

record Engine =
  indexMgr :: IndexManager
  server :: ServerView
  expireLog :: "ExpireEvent list"

datatype Event =
    EvStartup "string \<Rightarrow> 32 word \<Rightarrow> Status"
  | EvStop
  | EvScan nat
  | EvDel nat
  | EvStopStore nat
  | EvServer ServerView

fun step :: "Event \<Rightarrow> Engine \<Rightarrow> Engine option" where
  "step (EvStartup poolStartup) s =
     Some (s\<lparr>indexMgr := snd (startup poolStartup (indexMgr s))\<rparr>)"
| "step EvStop s = map_option (\<lambda>m. s\<lparr>indexMgr := m\<rparr>) (stop (indexMgr s))"
| "step (EvScan storeId) s =
     map_option (\<lambda>(status, m). s\<lparr>indexMgr := m\<rparr>)
       (scanExpiredKeysJob (server s) storeId (indexMgr s))"
| "step (EvDel storeId) s =
     map_option
       (\<lambda>(deletes, calls, m).
          s\<lparr>indexMgr := m,
            expireLog := expireLog s
              @ map (\<lambda>c. \<lparr>ev_store = storeId, ev_mode = modeOf (server s) storeId,
                           ev_call = c\<rparr>) calls\<rparr>)
       (tryDelExpiredKeysJob storeId (indexMgr s))"
| "step (EvStopStore storeId) s = Some (s\<lparr>indexMgr := snd (stopStore storeId (indexMgr s))\<rparr>)"
| "step (EvServer svr) s = Some (s\<lparr>server := svr\<rparr>)"

fun exec :: "Event list \<Rightarrow> Engine \<Rightarrow> Engine option" where
  "exec [] s = Some s"
| "exec (ev # evs) s = (case step ev s of None \<Rightarrow> None | Some s' \<Rightarrow> exec evs s')"

definition boot :: "nat \<Rightarrow> ServerParams \<Rightarrow> ServerView \<Rightarrow> Engine" where
  "boot kvStoreCount cfg svr =
     \<lparr>indexMgr = newIndexManager kvStoreCount cfg, server = svr, expireLog = []\<rparr>"

text \<open>
  An execution in which the store \<open>storeId\<close> is never REPLICATE_ONLY after a change on the
  collaborators' side while entries of it are still queued.
\<close>

fun quietSwitch :: "nat \<Rightarrow> Event list \<Rightarrow> Engine \<Rightarrow> bool" where
  "quietSwitch storeId [] s = True"
| "quietSwitch storeId (ev # evs) s =
     ((case ev of
         EvServer svr \<Rightarrow>
           modeOf svr storeId \<noteq> Some REPLICATE_ONLY \<or> expiredKeys (indexMgr s) storeId = []
       | _ \<Rightarrow> True)
      \<and> (case step ev s of None \<Rightarrow> True | Some s' \<Rightarrow> quietSwitch storeId evs s'))"

text \<open>Observations of an execution's final state.\<close>

definition queueLength :: "nat \<Rightarrow> Engine \<Rightarrow> nat" where
  "queueLength storeId s = length (expiredKeys (indexMgr s) storeId)"

definition loggedCalls :: "Engine \<Rightarrow> (nat \<times> StoreMode option \<times> string) list" where
  "loggedCalls s = map (\<lambda>e. (ev_store e, ev_mode e, call_priKey (ev_call e))) (expireLog s)"

subsection \<open>Sample inputs\<close>

definition sampleEntry :: "string \<Rightarrow> TTLIndex" where
  "sampleEntry k = \<lparr>getPriKey = k, getDbId = 0, getType = 0, getTTL = 5, encode = k\<rparr>"

definition sampleParams :: ServerParams where
  "sampleParams =
     \<lparr>scanCntIndexMgr = 2, scanJobCntIndexMgr = 1, delCntIndexMgr = 2,
      delJobCntIndexMgr = 1, pauseTimeIndexMgr = 1\<rparr>"

definition exhausted :: Status where
  "exhausted = \<lparr>st_code = ERR_OTHER 0, st_msg = ''exhausted''\<rparr>"

definition failure :: Status where
  "failure = \<lparr>st_code = ERR_INTERNAL, st_msg = ''failed''\<rparr>"

definition sampleStore :: "StoreMode \<Rightarrow> TTLIndex list \<Rightarrow> KVStore" where
  "sampleStore mode idx =
     \<lparr>getMode = mode, isOpen = True, getCurrentTime = 10,
      createTransaction = Inr \<lparr>ttlIndex = idx, cursorEnd = exhausted\<rparr>\<rparr>"

definition sampleView :: "StoreMode \<Rightarrow> TTLIndex list \<Rightarrow> ServerView" where
  "sampleView mode idx =
     \<lparr>clusterEnabled = False, existMigrateTask = False,
      getDb = (\<lambda>storeId. Inr (sampleStore mode idx))\<rparr>"

definition lookupFails :: ServerView where
  "lookupFails =
     \<lparr>clusterEnabled = False, existMigrateTask = False, getDb = (\<lambda>storeId. Inl failure)\<rparr>"

definition migrating :: ServerView where
  "migrating = (sampleView READ_WRITE [])\<lparr>clusterEnabled := True, existMigrateTask := True\<rparr>"

definition poolsStart :: "string \<Rightarrow> 32 word \<Rightarrow> Status" where
  "poolsStart name n = OK"

definition deleterPoolFails :: "string \<Rightarrow> 32 word \<Rightarrow> Status" where
  "deleterPoolFails name n = (if name = ''tx-idx-del'' then failure else OK)"

definition fiveKeys :: "TTLIndex list" where
  "fiveKeys =
     [sampleEntry ''a'', sampleEntry ''b'', sampleEntry ''c'', sampleEntry ''d'',
      sampleEntry ''e'']"

definition threeKeys :: "TTLIndex list" where
  "threeKeys = [sampleEntry ''c'', sampleEntry ''d'', sampleEntry ''e'']"

definition txnFails :: ServerView where
  "txnFails =
     \<lparr>clusterEnabled = False, existMigrateTask = False,
      getDb = (\<lambda>storeId. Inr ((sampleStore READ_WRITE [])\<lparr>createTransaction := Inl failure\<rparr>))\<rparr>"

definition cursorFails :: ServerView where
  "cursorFails =
     \<lparr>clusterEnabled = False, existMigrateTask = False,
      getDb = (\<lambda>storeId. Inr ((sampleStore READ_WRITE [])
                \<lparr>createTransaction :=
                   Inr \<lparr>ttlIndex = [sampleEntry ''a''], cursorEnd = failure\<rparr>\<rparr>))\<rparr>"

definition loadedManager :: IndexManager where
  "loadedManager =
     (newIndexManager 2 sampleParams)
       \<lparr>expiredKeys := (\<lambda>storeId. [sampleEntry ''a'', sampleEntry ''b'']),
        scanPoints := (\<lambda>storeId. Some ''b''),
        scanJobStatus := (\<lambda>storeId. True),
        delJobStatus := (\<lambda>storeId. True),
        scanJobCnt := (\<lambda>storeId. 1),
        delJobCnt := (\<lambda>storeId. 1),
        totalEnqueue := 4\<rparr>"

definition runningManager :: IndexManager where
  "runningManager =
     (newIndexManager 2 sampleParams)
       \<lparr>isRunning := True,
        expiredKeys := (\<lambda>storeId. if storeId = 1 then [sampleEntry ''a''] else [])\<rparr>"

text \<open>
  The TTL index a scanner job for \<open>storeId\<close> reads when the lookup and the transaction
  succeed.
\<close>

definition indexSeen :: "ServerView \<Rightarrow> nat \<Rightarrow> TTLIndex list" where
  "indexSeen svr storeId =
     (case getDb svr storeId of
        Inl status \<Rightarrow> []
      | Inr store \<Rightarrow>
          (case createTransaction store of Inl status \<Rightarrow> [] | Inr txn \<Rightarrow> ttlIndex txn))"

text \<open>The store clock a scanner job for \<open>storeId\<close> bounds its cursor with.\<close>

definition clockSeen :: "ServerView \<Rightarrow> nat \<Rightarrow> nat" where
  "clockSeen svr storeId =
     (case getDb svr storeId of Inl status \<Rightarrow> 0 | Inr store \<Rightarrow> getCurrentTime store)"

text \<open>
  Whether a scanner job for \<open>storeId\<close> gets as far as its cursor: the busy flag is free,
  the shard is not disabled, no migration holds the job back, the lookup succeeds, the
  store is open and not REPLICATE_ONLY, and the transaction begins.
\<close>

definition reachesCursor :: "ServerView \<Rightarrow> nat \<Rightarrow> IndexManager \<Rightarrow> bool" where
  "reachesCursor svr storeId m =
     (\<not> scanJobStatus m storeId \<and> \<not> disableStatus m storeId \<and>
      \<not> (clusterEnabled svr \<and> existMigrateTask svr) \<and>
      (case getDb svr storeId of
         Inl status \<Rightarrow> False
       | Inr store \<Rightarrow>
           getMode store \<noteq> REPLICATE_ONLY \<and> isOpen store \<and>
           (case createTransaction store of Inl status \<Rightarrow> False | Inr txn \<Rightarrow> True)))"

text \<open>
  The scan body in the spec's words: append entry after entry, and stop after the append
  that brings the list to \<open>batch\<close> entries; \<open>len\<close> is the length of the list so far.
\<close>

fun fillTo :: "nat \<Rightarrow> nat \<Rightarrow> 'a list \<Rightarrow> 'a list" where
  "fillTo len batch [] = []"
| "fillTo len batch (x # xs) =
     (if Suc len = batch then [x] else x # fillTo (Suc len) batch xs)"

text \<open>
  What the spec's seek-and-advance rule makes a resumed pass enqueue: of the entries of the
  index whose key is greater than the resume cursor \<open>C\<close>, in index order, those the
  cursor yields (they have expired by the store's clock), taken by the scan body.
\<close>

definition resumedBatch :: "string \<Rightarrow> ServerView \<Rightarrow> nat \<Rightarrow> IndexManager \<Rightarrow> TTLIndex list" where
  "resumedBatch C svr storeId m =
     fillTo (length (expiredKeys m storeId)) (unat (scanBatch m))
       (takeWhile (\<lambda>e. getTTL e \<le> clockSeen svr storeId)
          (filter (\<lambda>e. C < encode e) (indexSeen svr storeId)))"

text \<open>
  The invariant behind replica safety for one store: while the store is REPLICATE_ONLY its
  list is empty, and no recorded call was made for it in that mode.
\<close>

definition replicaQuiet :: "nat \<Rightarrow> Engine \<Rightarrow> bool" where
  "replicaQuiet storeId s =
     ((modeOf (server s) storeId = Some REPLICATE_ONLY
         \<longrightarrow> expiredKeys (indexMgr s) storeId = []) \<and>
      (\<forall>e \<in> set (expireLog s).
         ev_store e = storeId \<longrightarrow> ev_mode e \<noteq> Some REPLICATE_ONLY))"

section \<open>Properties\<close>

declare scanLoop.simps [simp del]
declare delLoop.simps [simp del]

subsection \<open>The scan loop\<close>

lemma enqueue_frame:
  "scanJobStatus (enqueue i r m) = scanJobStatus m"
  "scanJobCnt (enqueue i r m) = scanJobCnt m"
  "delJobStatus (enqueue i r m) = delJobStatus m"
  "delJobCnt (enqueue i r m) = delJobCnt m"
  "disableStatus (enqueue i r m) = disableStatus m"
  "isRunning (enqueue i r m) = isRunning m"
  "totalDequeue (enqueue i r m) = totalDequeue m"
  "scanBatch (enqueue i r m) = scanBatch m"
  by (simp_all add: enqueue_def)

lemma scanLoop_stop: "fst (cursor_next c) = Inl e \<Longrightarrow> scanLoop i c m = m"
  by (subst scanLoop.simps) simp

lemma scanLoop_full:
  "fst (cursor_next c) = Inr r \<Longrightarrow>
   length (expiredKeys (enqueue i r m) i) = unat (scanBatch (enqueue i r m)) \<Longrightarrow>
   scanLoop i c m = enqueue i r m"
  by (subst scanLoop.simps) simp

lemma scanLoop_more:
  "fst (cursor_next c) = Inr r \<Longrightarrow>
   length (expiredKeys (enqueue i r m) i) \<noteq> unat (scanBatch (enqueue i r m)) \<Longrightarrow>
   scanLoop i c m = scanLoop i (snd (cursor_next c)) (enqueue i r m)"
  by (subst scanLoop.simps) simp

lemma scanLoop_frame:
  "scanJobStatus (scanLoop i c m) = scanJobStatus m \<and>
   scanJobCnt (scanLoop i c m) = scanJobCnt m \<and>
   delJobStatus (scanLoop i c m) = delJobStatus m \<and>
   delJobCnt (scanLoop i c m) = delJobCnt m \<and>
   disableStatus (scanLoop i c m) = disableStatus m \<and>
   isRunning (scanLoop i c m) = isRunning m \<and>
   totalDequeue (scanLoop i c m) = totalDequeue m \<and>
   scanBatch (scanLoop i c m) = scanBatch m"
proof (induction i c m rule: scanLoop.induct)
  case (1 storeId cursor m)
  show ?case
  proof (cases "fst (cursor_next cursor)")
    case (Inl e)
    then show ?thesis by (simp add: scanLoop_stop)
  next
    case (Inr r)
    show ?thesis
    proof (cases "length (expiredKeys (enqueue storeId r m) storeId)
                    = unat (scanBatch (enqueue storeId r m))")
      case True
      with Inr show ?thesis by (simp add: scanLoop_full enqueue_frame)
    next
      case False
      from "1.IH"[OF Inr False] show ?thesis
        by (simp add: scanLoop_more[OF Inr False] enqueue_frame)
    qed
  qed
qed

lemma cursor_next_Inr:
  "fst (cursor_next c) = Inr r \<Longrightarrow> pending c = r # pending (snd (cursor_next c))"
  by (auto simp: cursor_next_def split: list.splits if_splits)

lemma scanLoop_appends:
  "\<exists>n. expiredKeys (scanLoop i c m) = (expiredKeys m)(i := expiredKeys m i @ take n (pending c)) \<and>
       totalEnqueue (scanLoop i c m) = totalEnqueue m + of_nat (length (take n (pending c))) \<and>
       scanPoints (scanLoop i c m) =
         (if take n (pending c) = [] then scanPoints m
          else (scanPoints m)(i \<mapsto> encode (last (take n (pending c)))))"
proof (induction i c m rule: scanLoop.induct)
  case (1 storeId cursor m)
  show ?case
  proof (cases "fst (cursor_next cursor)")
    case (Inl e)
    then have "scanLoop storeId cursor m = m" by (rule scanLoop_stop)
    then show ?thesis by (intro exI[of _ 0]) simp
  next
    case (Inr r)
    note p = cursor_next_Inr[OF Inr]
    show ?thesis
    proof (cases "length (expiredKeys (enqueue storeId r m) storeId)
                    = unat (scanBatch (enqueue storeId r m))")
      case True
      have "scanLoop storeId cursor m = enqueue storeId r m"
        by (rule scanLoop_full[OF Inr True])
      then show ?thesis
        by (intro exI[of _ 1]) (simp add: p enqueue_def)
    next
      case False
      from "1.IH"[OF Inr False] obtain n where
        q: "expiredKeys (scanLoop storeId (snd (cursor_next cursor)) (enqueue storeId r m))
              = (expiredKeys (enqueue storeId r m))
                  (storeId := expiredKeys (enqueue storeId r m) storeId
                     @ take n (pending (snd (cursor_next cursor))))"
        and t: "totalEnqueue (scanLoop storeId (snd (cursor_next cursor)) (enqueue storeId r m))
              = totalEnqueue (enqueue storeId r m)
                  + of_nat (length (take n (pending (snd (cursor_next cursor)))))"
        and sp: "scanPoints (scanLoop storeId (snd (cursor_next cursor)) (enqueue storeId r m)) =
           (if take n (pending (snd (cursor_next cursor))) = [] then scanPoints (enqueue storeId r m)
            else (scanPoints (enqueue storeId r m))
                   (storeId \<mapsto> encode (last (take n (pending (snd (cursor_next cursor)))))))"
        by blast
      have eq: "scanLoop storeId cursor m
          = scanLoop storeId (snd (cursor_next cursor)) (enqueue storeId r m)"
        by (rule scanLoop_more[OF Inr False])
      have tk: "take (Suc n) (pending cursor) = r # take n (pending (snd (cursor_next cursor)))"
        by (subst p) simp
      show ?thesis
        unfolding eq
        apply (intro exI[of _ "Suc n"])
        apply (simp only: tk q t sp)
        apply (auto simp add: enqueue_def fun_eq_iff)
        done
    qed
  qed
qed

lemma scanLoop_bounded:
  "length (expiredKeys m i) < unat (scanBatch m) \<Longrightarrow>
   length (expiredKeys (scanLoop i c m) i) \<le> unat (scanBatch m)"
proof (induction i c m rule: scanLoop.induct)
  case (1 storeId cursor m)
  show ?case
  proof (cases "fst (cursor_next cursor)")
    case (Inl e)
    with "1.prems" show ?thesis by (simp add: scanLoop_stop)
  next
    case (Inr r)
    show ?thesis
    proof (cases "length (expiredKeys (enqueue storeId r m) storeId)
                    = unat (scanBatch (enqueue storeId r m))")
      case True
      then show ?thesis by (simp add: scanLoop_full[OF Inr True] enqueue_frame)
    next
      case False
      with "1.prems" have "length (expiredKeys (enqueue storeId r m) storeId)
           < unat (scanBatch (enqueue storeId r m))"
        by (simp add: enqueue_def)
      from "1.IH"[OF Inr False this] show ?thesis
        by (simp add: scanLoop_more[OF Inr False] enqueue_frame)
    qed
  qed
qed

lemma scanLoop_new_entries:
  "\<exists>new. expiredKeys (scanLoop i c m) i = expiredKeys m i @ new \<and>
     ((\<exists>st. fst (cursor_next c) = Inl st) \<longrightarrow> new = []) \<and> set new \<subseteq> set (pending c)"
proof -
  from scanLoop_appends[of i c m] obtain n where
    q: "expiredKeys (scanLoop i c m) = (expiredKeys m)(i := expiredKeys m i @ take n (pending c))"
    by blast
  show ?thesis
  proof (cases "\<exists>st. fst (cursor_next c) = Inl st")
    case True
    then obtain st where "fst (cursor_next c) = Inl st" ..
    then have "scanLoop i c m = m" by (rule scanLoop_stop)
    then show ?thesis by simp
  next
    case False
    with q show ?thesis
      by (intro exI[of _ "take n (pending c)"]) (auto dest: in_set_takeD)
  qed
qed

lemma scanGuarded_migrating:
  "clusterEnabled svr \<Longrightarrow> existMigrateTask svr \<Longrightarrow> scanGuarded svr i m = Some (OK, m)"
  by (simp add: scanGuarded_def)

lemma scanGuarded_cnt:
  "\<not> (clusterEnabled svr \<and> existMigrateTask svr) \<Longrightarrow> scanGuarded svr i m = Some (st, m') \<Longrightarrow>
   scanJobCnt m' = (scanJobCnt m)(i := scanJobCnt m i + 1) \<and> scanJobStatus m' = scanJobStatus m"
  by (auto simp: scanGuarded_def Let_def scanLoop_frame split: sum.splits if_splits option.splits)

lemma scanGuarded_queue:
  assumes "scanGuarded svr i m = Some (st, m')"
  shows "\<exists>new. expiredKeys m' = (expiredKeys m)(i := expiredKeys m i @ new)"
proof -
  have noop: "\<exists>new. expiredKeys m1 = (expiredKeys m1)(i := expiredKeys m1 i @ new)" for m1
    by (intro exI[of _ "[]"]) simp
  have loop: "\<exists>new. expiredKeys (scanLoop i c m1) = (expiredKeys m1)(i := expiredKeys m1 i @ new)"
    for c m1
    using scanLoop_appends[of i c m1] by blast
  from assms show ?thesis
    using noop[of m]
      noop[of "m\<lparr>scanJobCnt := (scanJobCnt m)(i := scanJobCnt m i + 1)\<rparr>"]
      loop[of _ "m\<lparr>scanJobCnt := (scanJobCnt m)(i := scanJobCnt m i + 1)\<rparr>"]
    by (auto simp: scanGuarded_def Let_def split: if_splits sum.splits option.splits)
qed

lemma scan_queue:
  assumes "scanExpiredKeysJob svr j m = Some (st, m')"
  shows "\<exists>new. expiredKeys m' = (expiredKeys m)(j := expiredKeys m j @ new)"
proof (cases "scanJobStatus m j \<or> disableStatus m j")
  case True
  with assms have "expiredKeys m' = expiredKeys m"
    by (auto simp: scanExpiredKeysJob_def Let_def split: if_splits)
  then show ?thesis by (intro exI[of _ "[]"]) simp
next
  case False
  with assms obtain m2 where
    g: "scanGuarded svr j (m\<lparr>scanJobStatus := (scanJobStatus m)(j := True)\<rparr>) = Some (st, m2)"
    and m': "m' = scanGuard j m2"
    by (auto simp: scanExpiredKeysJob_def)
  from scanGuarded_queue[OF g] m' show ?thesis by (simp add: scanGuard_def)
qed

lemma scan_returns:
  "scanPoints m i \<noteq> None \<Longrightarrow> \<exists>st m'. scanExpiredKeysJob svr i m = Some (st, m')"
  by (auto simp: scanExpiredKeysJob_def scanGuarded_def Let_def split: sum.splits)

lemma scan_isRunning:
  assumes "scanExpiredKeysJob svr j m = Some (st, m')"
  shows "isRunning m' = isRunning m"
  using assms
  by (auto simp: scanExpiredKeysJob_def scanGuarded_def scanGuard_def Let_def scanLoop_frame
           split: sum.splits if_splits option.splits)

lemma scan_replica_noop:
  assumes "modeOf svr i = Some REPLICATE_ONLY"
    and "scanExpiredKeysJob svr i m = Some (st, m')"
  shows "expiredKeys m' = expiredKeys m"
  using assms
  by (auto simp: modeOf_def scanExpiredKeysJob_def scanGuarded_def scanGuard_def Let_def
           split: sum.splits if_splits)

subsection \<open>The delete loop\<close>

lemma delLoop_empty: "expiredKeys m i = [] \<Longrightarrow> delLoop i d cs m = Some (d, cs, m)"
  by (subst delLoop.simps) simp

lemma popFront_frame:
  "delBatch (popFront i m) = delBatch m"
  "isRunning (popFront i m) = isRunning m"
  "delJobStatus (popFront i m) = delJobStatus m"
  "delJobCnt (popFront i m) = delJobCnt m"
  "scanJobStatus (popFront i m) = scanJobStatus m"
  "scanJobCnt (popFront i m) = scanJobCnt m"
  "disableStatus (popFront i m) = disableStatus m"
  "scanPoints (popFront i m) = scanPoints m"
  "totalEnqueue (popFront i m) = totalEnqueue m"
  by (simp_all add: popFront_def)

lemma delLoop_last:
  "expiredKeys m i = x # xs \<Longrightarrow> d + 1 = delBatch m \<Longrightarrow>
   delLoop i d cs m = Some (d + 1, cs @ [expireKeyIfNeeded x], popFront i m)"
  by (subst delLoop.simps) (simp add: popFront_frame)

lemma delLoop_more:
  "expiredKeys m i = x # xs \<Longrightarrow> d + 1 \<noteq> delBatch m \<Longrightarrow>
   delLoop i d cs m = delLoop i (d + 1) (cs @ [expireKeyIfNeeded x]) (popFront i m)"
  by (subst delLoop.simps) (simp add: popFront_frame)

lemma word_succ_unat: "(d::32 word) < b \<Longrightarrow> unat (d + 1) = unat d + 1"
proof -
  assume "d < b"
  then have "unat d < unat b" by (simp add: word_less_nat_alt)
  moreover have "unat b < 2 ^ LENGTH(32)" by (rule unsigned_less)
  ultimately have "unat d + unat (1::32 word) < 2 ^ LENGTH(32)" by simp
  then have "unat (d + 1) = unat d + unat (1::32 word)"
    using unat_add_lem[of d 1] by blast
  then show ?thesis by simp
qed

lemma delLoop_pops:
  "\<exists>k m'. delLoop i d cs m
       = Some (d + of_nat k, cs @ map expireKeyIfNeeded (take k (expiredKeys m i)), m') \<and>
     k \<le> length (expiredKeys m i) \<and>
     expiredKeys m' = (expiredKeys m)(i := drop k (expiredKeys m i)) \<and>
     totalDequeue m' = totalDequeue m + of_nat k \<and>
     isRunning m' = isRunning m \<and> delJobStatus m' = delJobStatus m \<and>
     delJobCnt m' = delJobCnt m \<and> scanJobStatus m' = scanJobStatus m \<and>
     scanJobCnt m' = scanJobCnt m \<and> disableStatus m' = disableStatus m \<and>
     scanPoints m' = scanPoints m \<and> totalEnqueue m' = totalEnqueue m \<and>
     (d < delBatch m \<longrightarrow> unat d + k \<le> unat (delBatch m))"
proof (induction i d cs m rule: delLoop.induct)
  case (1 storeId deletes calls m)
  show ?case
  proof (cases "expiredKeys m storeId")
    case Nil
    then show ?thesis
      by (intro exI[of _ 0] exI[of _ m]) (auto simp: delLoop_empty fun_eq_iff word_less_nat_alt)
  next
    case (Cons x xs)
    show ?thesis
    proof (cases "deletes + 1 = delBatch m")
      case True
      have le: "deletes < delBatch m \<longrightarrow> unat deletes + 1 \<le> unat (delBatch m)"
        by (simp add: word_less_nat_alt)
      show ?thesis
        using le
        by (intro exI[of _ 1] exI[of _ "popFront storeId m"])
           (simp add: delLoop_last[OF Cons True] Cons popFront_def)
    next
      case False
      have ne: "expiredKeys m storeId \<noteq> []" using Cons by simp
      have F': "deletes + 1 \<noteq> delBatch (popFront storeId m)"
        using False by (simp add: popFront_frame)
      from "1.IH"[OF Cons ne F'] obtain k m' where
        r: "delLoop storeId (deletes + 1) (calls @ [expireKeyIfNeeded x]) (popFront storeId m)
         = Some (deletes + 1 + of_nat k,
                 (calls @ [expireKeyIfNeeded x])
                   @ map expireKeyIfNeeded (take k (expiredKeys (popFront storeId m) storeId)), m')"
        and k: "k \<le> length (expiredKeys (popFront storeId m) storeId)"
        and q: "expiredKeys m' = (expiredKeys (popFront storeId m))
                            (storeId := drop k (expiredKeys (popFront storeId m) storeId))"
        and rest: "totalDequeue m' = totalDequeue (popFront storeId m) + of_nat k"
          "isRunning m' = isRunning (popFront storeId m)"
          "delJobStatus m' = delJobStatus (popFront storeId m)"
          "delJobCnt m' = delJobCnt (popFront storeId m)"
          "scanJobStatus m' = scanJobStatus (popFront storeId m)"
          "scanJobCnt m' = scanJobCnt (popFront storeId m)"
          "disableStatus m' = disableStatus (popFront storeId m)"
          "scanPoints m' = scanPoints (popFront storeId m)"
          "totalEnqueue m' = totalEnqueue (popFront storeId m)"
        and b: "deletes + 1 < delBatch (popFront storeId m) \<longrightarrow>
            unat (deletes + 1) + k \<le> unat (delBatch (popFront storeId m))"
        by blast
      have bound: "deletes < delBatch m \<longrightarrow> unat deletes + Suc k \<le> unat (delBatch m)"
      proof
        assume lt: "deletes < delBatch m"
        then have ne: "deletes + 1 \<le> delBatch m" by (simp add: inc_le)
        with False have lt1: "deletes + 1 < delBatch m" by simp
        have "unat (deletes + 1) = unat deletes + 1"
          using lt by (rule word_succ_unat)
        with b lt1 show "unat deletes + Suc k \<le> unat (delBatch m)"
          by (simp add: popFront_frame)
      qed
      show ?thesis
        apply (intro exI[of _ "Suc k"] exI[of _ m'])
        apply (simp only: delLoop_more[OF Cons False] r)
        using k q rest bound Cons
        apply (simp add: popFront_def)
        done
    qed
  qed
qed

lemma del_returns:
  "\<exists>n calls m'. tryDelExpiredKeysJob i m = Some (n, calls, m')"
proof -
  from delLoop_pops[of i 0 "[]" "m\<lparr>delJobStatus := (delJobStatus m)(i := True),
        delJobCnt := (delJobCnt m)(i := delJobCnt m i + 1)\<rparr>"]
  obtain r where "delLoop i 0 [] (m\<lparr>delJobStatus := (delJobStatus m)(i := True),
        delJobCnt := (delJobCnt m)(i := delJobCnt m i + 1)\<rparr>) = Some r"
    by blast
  then show ?thesis
    by (cases r) (simp add: tryDelExpiredKeysJob_def Let_def)
qed

lemma del_pops:
  assumes "tryDelExpiredKeysJob i m = Some (n, calls, m')"
  shows "\<exists>k. k \<le> length (expiredKeys m i) \<and>
           expiredKeys m' = (expiredKeys m)(i := drop k (expiredKeys m i)) \<and>
           calls = map expireKeyIfNeeded (take k (expiredKeys m i)) \<and>
           totalDequeue m' = totalDequeue m + of_nat k \<and>
           (delBatch m \<noteq> 0 \<longrightarrow> k \<le> unat (delBatch m))"
proof (cases "delJobStatus m i \<or> disableStatus m i")
  case True
  with assms show ?thesis
    by (intro exI[of _ 0]) (auto simp: tryDelExpiredKeysJob_def Let_def split: if_splits)
next
  case False
  let ?m2 = "m\<lparr>delJobStatus := (delJobStatus m)(i := True),
        delJobCnt := (delJobCnt m)(i := delJobCnt m i + 1)\<rparr>"
  from delLoop_pops[of i 0 "[]" ?m2] obtain k m3 where
    r: "delLoop i 0 [] ?m2 = Some (0 + of_nat k, [] @ map expireKeyIfNeeded (take k (expiredKeys ?m2 i)), m3)"
    and k: "k \<le> length (expiredKeys ?m2 i)"
    and q: "expiredKeys m3 = (expiredKeys ?m2)(i := drop k (expiredKeys ?m2 i))"
    and t: "totalDequeue m3 = totalDequeue ?m2 + of_nat k"
    and b: "(0::32 word) < delBatch ?m2 \<longrightarrow> unat (0::32 word) + k \<le> unat (delBatch ?m2)"
    by blast
  from b have b': "delBatch m \<noteq> 0 \<longrightarrow> k \<le> unat (delBatch m)"
    by (simp add: word_neq_0_conv)
  from assms False r have "calls = map expireKeyIfNeeded (take k (expiredKeys m i))"
    and "expiredKeys m' = expiredKeys m3" and "totalDequeue m' = totalDequeue m3"
    by (auto simp: tryDelExpiredKeysJob_def Let_def)
  with k q t b' show ?thesis
    by (intro exI[of _ k]) simp
qed

lemma del_isRunning:
  assumes "tryDelExpiredKeysJob j m = Some (n, calls, m')"
  shows "isRunning m' = isRunning m"
proof (cases "delJobStatus m j \<or> disableStatus m j")
  case True
  with assms show ?thesis
    by (auto simp: tryDelExpiredKeysJob_def Let_def split: if_splits)
next
  case False
  let ?m2 = "m\<lparr>delJobStatus := (delJobStatus m)(j := True),
        delJobCnt := (delJobCnt m)(j := delJobCnt m j + 1)\<rparr>"
  from delLoop_pops[of j 0 "[]" ?m2] obtain d cs m3 where
    r: "delLoop j 0 [] ?m2 = Some (d, cs, m3)" and "isRunning m3 = isRunning ?m2"
    by blast
  with assms False show ?thesis
    by (auto simp: tryDelExpiredKeysJob_def Let_def)
qed

subsection \<open>Busy flags\<close>

text \<open>
  Claim C1 says that a job whose compare-and-swap succeeded has cleared its busy flag when
  it returns, also on the early return for a disabled shard. The code returns there
  before the scanner's guard exists, and the deleter clears its flag only at the end of
  the function: on a disabled shard a job that found its flag clear returns with the flag
  set.
\<close>

theorem busy_flag_kept_when_disabled:
  assumes "disableStatus m i"
  shows "(\<not> scanJobStatus m i \<longrightarrow>
            (\<exists>m'. scanExpiredKeysJob svr i m = Some (OK, m') \<and> scanJobStatus m' i)) \<and>
         (\<not> delJobStatus m i \<longrightarrow>
            (\<exists>m'. tryDelExpiredKeysJob i m = Some (0, [], m') \<and> delJobStatus m' i))"
  using assms by (simp add: scanExpiredKeysJob_def tryDelExpiredKeysJob_def)

theorem busy_flag_kept_when_disabled_witness:
  "disableStatus (snd (stopStore 0 (newIndexManager 1 sampleParams))) 0 \<and>
   \<not> scanJobStatus (snd (stopStore 0 (newIndexManager 1 sampleParams))) 0 \<and>
   \<not> delJobStatus (snd (stopStore 0 (newIndexManager 1 sampleParams))) 0 \<and>
   (\<exists>m'. scanExpiredKeysJob (sampleView READ_WRITE [])  0
            (snd (stopStore 0 (newIndexManager 1 sampleParams))) = Some (OK, m') \<and>
          scanJobStatus m' 0) \<and>
   (\<exists>m'. tryDelExpiredKeysJob 0 (snd (stopStore 0 (newIndexManager 1 sampleParams)))
            = Some (0, [], m') \<and> delJobStatus m' 0)"
proof -
  have d: "disableStatus (snd (stopStore 0 (newIndexManager 1 sampleParams))) 0"
    by (simp add: stopStore_def)
  have s: "\<not> scanJobStatus (snd (stopStore 0 (newIndexManager 1 sampleParams))) 0"
    and t: "\<not> delJobStatus (snd (stopStore 0 (newIndexManager 1 sampleParams))) 0"
    by (simp_all add: stopStore_def newIndexManager_def)
  from busy_flag_kept_when_disabled[OF d, of "sampleView READ_WRITE []"] d s t
  show ?thesis by blast
qed

lemma scan_releases_flag:
  assumes "\<not> scanJobStatus m i" "\<not> disableStatus m i"
    and "scanExpiredKeysJob svr i m = Some (st, m')"
  shows "\<not> scanJobStatus m' i"
  using assms by (auto simp: scanExpiredKeysJob_def scanGuard_def)

subsection \<open>Batches\<close>

lemma scan_fills_up_to_batch:
  assumes "length (expiredKeys m i) < unat (scanBatch m)"
    and "scanExpiredKeysJob svr i m = Some (st, m')"
  shows "length (expiredKeys m' i) \<le> unat (scanBatch m)"
proof -
  have loop: "length (expiredKeys (scanLoop i c
                 (m\<lparr>scanJobStatus := (scanJobStatus m)(i := True),
                    scanJobCnt := (scanJobCnt m)(i := scanJobCnt m i + 1)\<rparr>)) i)
               \<le> unat (scanBatch m)" for c
    using scanLoop_bounded[of "m\<lparr>scanJobStatus := (scanJobStatus m)(i := True),
                    scanJobCnt := (scanJobCnt m)(i := scanJobCnt m i + 1)\<rparr>" i c] assms(1)
    by simp
  from assms show ?thesis
    using loop
    by (auto simp: scanExpiredKeysJob_def scanGuarded_def scanGuard_def Let_def
             split: if_splits sum.splits option.splits)
qed

text \<open>
  Claim C2 says that one scanner job appends at most \<open>scanBatch\<close> entries whatever the
  list held before. The loop stops when the size of the list equals \<open>scanBatch\<close>, a
  test that a list already holding \<open>scanBatch\<close> entries never meets again: with
  \<open>scanBatch = 2\<close> and five expired entries in the index, the first job leaves two
  entries in the list and the second job, run before the deleter, appends the other three.
\<close>

theorem second_scan_exceeds_batch:
  "unat (scanBatch (indexMgr (boot 1 sampleParams (sampleView READ_WRITE fiveKeys)))) = 2 \<and>
   map_option (queueLength 0)
     (exec [EvScan 0] (boot 1 sampleParams (sampleView READ_WRITE fiveKeys))) = Some 2 \<and>
   map_option (queueLength 0)
     (exec [EvScan 0, EvScan 0] (boot 1 sampleParams (sampleView READ_WRITE fiveKeys)))
     = Some 5"
  by (simp add: boot_def queueLength_def scanExpiredKeysJob_def scanGuarded_def scanGuard_def
        newIndexManager_def sampleParams_def sampleView_def sampleStore_def sampleEntry_def
        fiveKeys_def createTTLIndexCursor_def cursor_seek_def cursor_key_def cursor_next_def
        enqueue_def scanLoop.simps)

subsection \<open>Resuming a scan\<close>

lemma dropWhile_sorted_keys:
  assumes "sorted_wrt (<) (map encode xs)"
    and "dropWhile (\<lambda>e. encode e < p) xs = y # ys"
  shows "p \<le> encode y \<and> (\<forall>e \<in> set ys. encode y < encode e)"
proof -
  from assms(2) have xs: "xs = takeWhile (\<lambda>e. encode e < p) xs @ y # ys"
    and ny: "\<not> encode y < p"
    by (simp_all add: dropWhile_eq_Cons_conv)
  from assms(1) have "sorted_wrt (<) (map encode (takeWhile (\<lambda>e. encode e < p) xs @ y # ys))"
    using xs by simp
  then have "sorted_wrt (<) (map encode (y # ys))"
    by (simp add: sorted_wrt_append)
  then have "\<forall>e \<in> set ys. encode y < encode e" by simp
  with ny show ?thesis by simp
qed

lemma positioned_cursor:
  assumes "sorted_wrt (<) (map encode (ttlIndex txn))"
    and "cursor_key (cursor_seek p (createTTLIndexCursor txn now)) = Inr k"
  shows "(\<forall>e \<in> set (pending (if p = k
                               then snd (cursor_next (cursor_seek p (createTTLIndexCursor txn now)))
                               else cursor_seek p (createTTLIndexCursor txn now))).
            p < encode e)
         \<or> (\<exists>st. fst (cursor_next (if p = k
                               then snd (cursor_next (cursor_seek p (createTTLIndexCursor txn now)))
                               else cursor_seek p (createTTLIndexCursor txn now))) = Inl st)"
proof -
  let ?c1 = "cursor_seek p (createTTLIndexCursor txn now)"
  have pc: "pending ?c1 = dropWhile (\<lambda>e. encode e < p) (ttlIndex txn)"
    by (simp add: cursor_seek_def createTTLIndexCursor_def)
  from assms(2) obtain y ys where yys: "pending ?c1 = y # ys" and k: "k = encode y"
    by (auto simp: cursor_key_def split: list.splits)
  from dropWhile_sorted_keys[OF assms(1) yys[unfolded pc]]
  have le: "p \<le> encode y" and gt: "\<forall>e \<in> set ys. encode y < encode e" by simp_all
  show ?thesis
  proof (cases "p = k")
    case False
    with le k have "p < encode y" by simp
    with gt have "\<forall>e \<in> set (pending ?c1). p < encode e"
      unfolding yys by auto
    with False show ?thesis by simp
  next
    case True
    show ?thesis
    proof (cases "getTTL y > until ?c1")
      case True
      then have "cursor_next ?c1 = (Inl (endStatus ?c1), ?c1)"
        using yys by (simp add: cursor_next_def)
      with \<open>p = k\<close> show ?thesis by simp
    next
      case False
      then have "pending (snd (cursor_next ?c1)) = ys"
        using yys by (simp add: cursor_next_def)
      with gt k \<open>p = k\<close> show ?thesis by simp
    qed
  qed
qed

lemma scan_new_entries_beyond:
  assumes "scanPoints m i = Some C" "C \<noteq> []"
    and "sorted_wrt (<) (map encode (indexSeen svr i))"
    and "scanExpiredKeysJob svr i m = Some (st, m')"
  shows "\<exists>new. expiredKeys m' i = expiredKeys m i @ new \<and> (\<forall>e \<in> set new. C < encode e)"
proof -
  let ?m1 = "m\<lparr>scanJobStatus := (scanJobStatus m)(i := True),
               scanJobCnt := (scanJobCnt m)(i := scanJobCnt m i + 1)\<rparr>"
  have noop: "expiredKeys m2 i = expiredKeys m i \<Longrightarrow>
      \<exists>new. expiredKeys m2 i = expiredKeys m i @ new \<and> (\<forall>e \<in> set new. C < encode e)" for m2
    by (intro exI[of _ "[]"]) simp
  have loop: "\<exists>new. expiredKeys (scanLoop i
        (if C = k then snd (cursor_next (cursor_seek C (createTTLIndexCursor txn now)))
         else cursor_seek C (createTTLIndexCursor txn now)) ?m1) i = expiredKeys m i @ new
        \<and> (\<forall>e \<in> set new. C < encode e)"
    if srt: "sorted_wrt (<) (map encode (ttlIndex txn))"
      and key: "cursor_key (cursor_seek C (createTTLIndexCursor txn now)) = Inr k"
    for txn now k
  proof -
    let ?c = "if C = k then snd (cursor_next (cursor_seek C (createTTLIndexCursor txn now)))
         else cursor_seek C (createTTLIndexCursor txn now)"
    from scanLoop_new_entries[of i ?c ?m1] obtain new where
      q: "expiredKeys (scanLoop i ?c ?m1) i = expiredKeys ?m1 i @ new"
      and e: "(\<exists>st. fst (cursor_next ?c) = Inl st) \<longrightarrow> new = []"
      and sub: "set new \<subseteq> set (pending ?c)"
      by blast
    from positioned_cursor[OF srt key] e sub have "\<forall>e \<in> set new. C < encode e"
      by auto
    with q show ?thesis by (intro exI[of _ new]) simp
  qed
  show ?thesis
  proof (cases "scanJobStatus m i \<or> disableStatus m i \<or> (clusterEnabled svr \<and> existMigrateTask svr)")
    case True
    with assms(4) have "expiredKeys m' i = expiredKeys m i"
      by (auto simp: scanExpiredKeysJob_def scanGuarded_def scanGuard_def Let_def
               split: if_splits)
    then show ?thesis by (rule noop)
  next
    case pre: False
    show ?thesis
    proof (cases "getDb svr i")
      case (Inl e)
      with pre assms(4) have "expiredKeys m' i = expiredKeys m i"
        by (auto simp: scanExpiredKeysJob_def scanGuarded_def scanGuard_def Let_def)
      then show ?thesis by (rule noop)
    next
      case (Inr store)
      show ?thesis
      proof (cases "createTransaction store")
        case (Inl e)
        with pre Inr assms(4) have "expiredKeys m' i = expiredKeys m i"
          by (auto simp: scanExpiredKeysJob_def scanGuarded_def scanGuard_def Let_def
                   split: if_splits)
        then show ?thesis by (rule noop)
      next
        case txn: (Inr txn)
        from assms(3) Inr txn have srt: "sorted_wrt (<) (map encode (ttlIndex txn))"
          by (simp add: indexSeen_def)
        show ?thesis
        proof (cases "getMode store = REPLICATE_ONLY \<or> \<not> isOpen store")
          case True
          with pre Inr assms(4) have "expiredKeys m' i = expiredKeys m i"
            by (auto simp: scanExpiredKeysJob_def scanGuarded_def scanGuard_def Let_def)
          then show ?thesis by (rule noop)
        next
          case rw: False
          show ?thesis
          proof (cases "cursor_key (cursor_seek C (createTTLIndexCursor txn (getCurrentTime store)))")
            case (Inl e)
            with pre Inr txn rw assms(1,2,4) have "expiredKeys m' i = expiredKeys m i"
              by (auto simp: scanExpiredKeysJob_def scanGuarded_def scanGuard_def Let_def)
            then show ?thesis by (rule noop)
          next
            case key: (Inr k)
            from pre Inr txn rw key assms(1,2,4)
            have "m' = scanGuard i (scanLoop i
               (if C = k then snd (cursor_next (cursor_seek C (createTTLIndexCursor txn (getCurrentTime store))))
                else cursor_seek C (createTTLIndexCursor txn (getCurrentTime store))) ?m1)"
              by (auto simp: scanExpiredKeysJob_def scanGuarded_def Let_def)
            then have "expiredKeys m' i = expiredKeys (scanLoop i
               (if C = k then snd (cursor_next (cursor_seek C (createTTLIndexCursor txn (getCurrentTime store))))
                else cursor_seek C (createTTLIndexCursor txn (getCurrentTime store))) ?m1) i"
              by (simp add: scanGuard_def)
            with loop[OF srt key] show ?thesis by simp
          qed
        qed
      qed
    qed
  qed
qed

lemma cursor_next_Inl_none:
  "fst (cursor_next c) = Inl st \<Longrightarrow> takeWhile (\<lambda>e. getTTL e \<le> until c) (pending c) = []"
  by (auto simp: cursor_next_def split: list.splits if_splits)

lemma cursor_next_Inr_one:
  "fst (cursor_next c) = Inr r \<Longrightarrow>
   pending c = r # pending (snd (cursor_next c)) \<and> getTTL r \<le> until c \<and>
   until (snd (cursor_next c)) = until c"
  by (auto simp: cursor_next_def split: list.splits if_splits)

lemma cursor_next_until: "until (snd (cursor_next c)) = until c"
  by (simp add: cursor_next_def split: list.splits)

lemma scanLoop_exact:
  "expiredKeys (scanLoop i c m) i
     = expiredKeys m i
         @ fillTo (length (expiredKeys m i)) (unat (scanBatch m))
             (takeWhile (\<lambda>e. getTTL e \<le> until c) (pending c))"
proof (induction i c m rule: scanLoop.induct)
  case (1 storeId cursor m)
  show ?case
  proof (cases "fst (cursor_next cursor)")
    case (Inl e)
    then show ?thesis by (simp add: scanLoop_stop cursor_next_Inl_none)
  next
    case (Inr r)
    from cursor_next_Inr_one[OF Inr] have p: "pending cursor = r # pending (snd (cursor_next cursor))"
      and t: "getTTL r \<le> until cursor" and u: "until (snd (cursor_next cursor)) = until cursor"
      by simp_all
    have tw: "takeWhile (\<lambda>e. getTTL e \<le> until cursor) (pending cursor)
        = r # takeWhile (\<lambda>e. getTTL e \<le> until cursor) (pending (snd (cursor_next cursor)))"
      by (subst p) (simp add: t)
    have q1: "expiredKeys (enqueue storeId r m) storeId = expiredKeys m storeId @ [r]"
      and b1: "scanBatch (enqueue storeId r m) = scanBatch m"
      by (simp_all add: enqueue_def)
    show ?thesis
    proof (cases "length (expiredKeys (enqueue storeId r m) storeId)
                    = unat (scanBatch (enqueue storeId r m))")
      case True
      then have "Suc (length (expiredKeys m storeId)) = unat (scanBatch m)"
        by (simp add: q1 b1)
      then show ?thesis
        by (simp add: scanLoop_full[OF Inr True] tw q1)
    next
      case False
      then have ne: "Suc (length (expiredKeys m storeId)) \<noteq> unat (scanBatch m)"
        by (simp add: q1 b1)
      from "1.IH"[OF Inr False] show ?thesis
        by (simp add: scanLoop_more[OF Inr False] tw q1 b1 u ne)
    qed
  qed
qed

lemma filter_beyond_Nil:
  "dropWhile (\<lambda>e. encode e < C) xs = [] \<Longrightarrow> filter (\<lambda>e. C < encode e) xs = []"
  by (auto simp: dropWhile_eq_Nil_conv filter_empty_conv)

lemma filter_beyond_Cons:
  assumes "sorted_wrt (<) (map encode xs)"
    and "dropWhile (\<lambda>e. encode e < C) xs = y # ys"
  shows "filter (\<lambda>e. C < encode e) xs = (if encode y = C then ys else y # ys)"
proof -
  let ?tw = "takeWhile (\<lambda>e. encode e < C) xs"
  from assms(2) have xs: "xs = ?tw @ y # ys" and ny: "\<not> encode y < C"
    by (simp_all add: dropWhile_eq_Cons_conv)
  from dropWhile_sorted_keys[OF assms] have le: "C \<le> encode y"
    and gt: "\<forall>e \<in> set ys. encode y < encode e" by simp_all
  have f1: "filter (\<lambda>e. C < encode e) ?tw = []"
    by (auto simp: filter_empty_conv dest: set_takeWhileD)
  have f2: "filter (\<lambda>e. C < encode e) ys = ys"
    using gt le by (auto simp: filter_id_conv)
  have "filter (\<lambda>e. C < encode e) xs = filter (\<lambda>e. C < encode e) (?tw @ y # ys)"
    using xs by simp
  also have "\<dots> = (if encode y = C then ys else y # ys)"
    using le by (auto simp: f1 f2)
  finally show ?thesis .
qed

lemma later_expire_later:
  assumes "sorted (map getTTL xs)"
    and "dropWhile (\<lambda>e. encode e < C) xs = y # ys"
    and "getTTL y > now"
  shows "takeWhile (\<lambda>e. getTTL e \<le> now) ys = []"
proof -
  from assms(2) have xs: "xs = takeWhile (\<lambda>e. encode e < C) xs @ y # ys"
    by (simp add: dropWhile_eq_Cons_conv)
  from assms(1) have "sorted (map getTTL (takeWhile (\<lambda>e. encode e < C) xs @ y # ys))"
    using xs by simp
  then have "\<forall>e \<in> set ys. getTTL y \<le> getTTL e"
    by (simp add: sorted_append)
  with assms(3) show ?thesis by (cases ys) auto
qed


lemma scanLoop_point:
  "scanPoints (scanLoop i c m) i =
     (if fillTo (length (expiredKeys m i)) (unat (scanBatch m))
           (takeWhile (\<lambda>e. getTTL e \<le> until c) (pending c)) = []
      then scanPoints m i
      else Some (encode (last (fillTo (length (expiredKeys m i)) (unat (scanBatch m))
             (takeWhile (\<lambda>e. getTTL e \<le> until c) (pending c))))))"
proof -
  from scanLoop_appends[of i c m] obtain n where
    q: "expiredKeys (scanLoop i c m) = (expiredKeys m)(i := expiredKeys m i @ take n (pending c))"
    and sp: "scanPoints (scanLoop i c m) =
         (if take n (pending c) = [] then scanPoints m
          else (scanPoints m)(i \<mapsto> encode (last (take n (pending c)))))"
    by blast
  from q have "expiredKeys (scanLoop i c m) i = expiredKeys m i @ take n (pending c)" by simp
  with scanLoop_exact[of i c m]
  have "take n (pending c) = fillTo (length (expiredKeys m i)) (unat (scanBatch m))
             (takeWhile (\<lambda>e. getTTL e \<le> until c) (pending c))"
    by simp
  with sp show ?thesis by simp
qed

lemma scan_resumed_exact:
  assumes sp: "scanPoints m i = Some C" and ne: "C \<noteq> []"
    and srt: "sorted_wrt (<) (map encode (indexSeen svr i))"
    and ttl: "sorted (map getTTL (indexSeen svr i))"
    and reach: "reachesCursor svr i m"
    and run: "scanExpiredKeysJob svr i m = Some (st, m')"
  shows "st = OK \<and> expiredKeys m' i = expiredKeys m i @ resumedBatch C svr i m \<and>
         scanPoints m' i = Some (if resumedBatch C svr i m = [] then C
                                 else encode (last (resumedBatch C svr i m)))"
proof -
  from reach obtain store txn where
    fl: "\<not> scanJobStatus m i" "\<not> disableStatus m i"
        "\<not> (clusterEnabled svr \<and> existMigrateTask svr)"
    and db: "getDb svr i = Inr store"
    and rw: "getMode store \<noteq> REPLICATE_ONLY" "isOpen store"
    and tx: "createTransaction store = Inr txn"
    by (auto simp: reachesCursor_def split: sum.splits)
  let ?m1 = "m\<lparr>scanJobStatus := (scanJobStatus m)(i := True),
               scanJobCnt := (scanJobCnt m)(i := scanJobCnt m i + 1)\<rparr>"
  let ?now = "getCurrentTime store"
  let ?c1 = "cursor_seek C (createTTLIndexCursor txn ?now)"
  let ?idx = "ttlIndex txn"
  have idx: "indexSeen svr i = ?idx" and clk: "clockSeen svr i = ?now"
    by (simp_all add: indexSeen_def clockSeen_def db tx)
  have pc: "pending ?c1 = dropWhile (\<lambda>e. encode e < C) ?idx" and uc: "until ?c1 = ?now"
    by (simp_all add: cursor_seek_def createTTLIndexCursor_def)
  have uc': "until (cursor_seek t (createTTLIndexCursor txn ?now)) = ?now" for t
    by (simp add: cursor_seek_def createTTLIndexCursor_def)
  have rb: "resumedBatch C svr i m =
      fillTo (length (expiredKeys m i)) (unat (scanBatch m))
        (takeWhile (\<lambda>e. getTTL e \<le> ?now) (filter (\<lambda>e. C < encode e) ?idx))"
    by (simp add: resumedBatch_def idx clk)
  show ?thesis
  proof (cases "cursor_key ?c1")
    case (Inl e)
    then have "pending ?c1 = []" by (auto simp: cursor_key_def split: list.splits)
    then have "filter (\<lambda>e. C < encode e) ?idx = []"
      unfolding pc by (rule filter_beyond_Nil)
    then have new: "resumedBatch C svr i m = []" by (simp add: rb)
    from run fl db rw tx sp ne Inl have "st = OK" and "m' = scanGuard i ?m1"
      by (auto simp: scanExpiredKeysJob_def scanGuarded_def Let_def)
    then show ?thesis using new sp by (simp add: scanGuard_def)
  next
    case (Inr k)
    then obtain y ys where yys: "pending ?c1 = y # ys" and k: "k = encode y"
      by (auto simp: cursor_key_def split: list.splits)
    let ?pos = "if C = k then snd (cursor_next ?c1) else ?c1"
    from run fl db rw tx sp ne Inr have stOK: "st = OK" and m': "m' = scanGuard i (scanLoop i ?pos ?m1)"
      by (auto simp: scanExpiredKeysJob_def scanGuarded_def Let_def)
    have flt: "filter (\<lambda>e. C < encode e) ?idx = (if encode y = C then ys else y # ys)"
      using filter_beyond_Cons[OF srt[unfolded idx] yys[unfolded pc]] .
    have up: "until ?pos = ?now"
      by (simp add: cursor_next_until cursor_seek_def createTTLIndexCursor_def)
    have same: "takeWhile (\<lambda>e. getTTL e \<le> ?now) (pending ?pos)
        = takeWhile (\<lambda>e. getTTL e \<le> ?now) (filter (\<lambda>e. C < encode e) ?idx)"
    proof (cases "C = k")
      case False
      with k flt yys show ?thesis by auto
    next
      case True
      show ?thesis
      proof (cases "getTTL y > ?now")
        case late: True
        then have "pending ?pos = y # ys"
          using True yys by (simp add: cursor_next_def uc')
        moreover have "takeWhile (\<lambda>e. getTTL e \<le> ?now) ys = []"
          using later_expire_later[OF ttl[unfolded idx] yys[unfolded pc] late] .
        ultimately show ?thesis using late True k flt by simp
      next
        case False
        then have "pending ?pos = ys"
          using True yys by (simp add: cursor_next_def uc')
        then show ?thesis using True k flt by simp
      qed
    qed
    have q: "expiredKeys (scanLoop i ?pos ?m1) i
       = expiredKeys m i @ resumedBatch C svr i m"
      using scanLoop_exact[of i ?pos ?m1] by (simp only: up same rb) simp
    have p: "scanPoints (scanLoop i ?pos ?m1) i
       = (if resumedBatch C svr i m = [] then Some C
          else Some (encode (last (resumedBatch C svr i m))))"
      using scanLoop_point[of i ?pos ?m1] sp by (simp only: up same rb) simp
    from q p stOK show ?thesis by (simp add: m' scanGuard_def)
  qed
qed

lemma scan_idle_unless_reaches:
  assumes "\<not> reachesCursor svr i m" and "scanExpiredKeysJob svr i m = Some (st, m')"
  shows "expiredKeys m' i = expiredKeys m i"
  using assms
  by (auto simp: reachesCursor_def scanExpiredKeysJob_def scanGuarded_def scanGuard_def Let_def
           split: if_splits sum.splits)

text \<open>
  Claim C3. When a scanner job has left the scan point of a shard at a non-empty key \<open>C\<close>,
  the next scanner job for that shard (whatever the deleter did to the list in between)
  appends no entry whose encoded form is \<open>C\<close>. A job that does not get as far as its
  cursor appends nothing. A job that does, over an index ordered by expiration time and
  key, returns OK and appends exactly what the seek-and-advance rule prescribes: it seeks
  to \<open>C\<close>, moves past the entry under the cursor once when its key is \<open>C\<close> (and not
  otherwise), and then the scan body takes the expired entries that follow, in index
  order, until the list holds \<open>scanBatch\<close> entries; the scan point ends at the last
  entry appended, or stays at \<open>C\<close> when there is none.
\<close>

theorem resume_skips_scan_point:
  assumes "scanExpiredKeysJob svr1 i m0 = Some (st1, m1)"
    and "scanPoints m1 i = Some C" and "C \<noteq> []"
    and "scanPoints m1' i = scanPoints m1 i"
    and "sorted_wrt (<) (map encode (indexSeen svr2 i))"
    and "scanExpiredKeysJob svr2 i m1' = Some (st2, m2)"
  shows "\<exists>new. expiredKeys m2 i = expiredKeys m1' i @ new \<and>
           (\<forall>e \<in> set new. encode e \<noteq> C) \<and>
           (\<not> reachesCursor svr2 i m1' \<longrightarrow> new = []) \<and>
           (reachesCursor svr2 i m1' \<and> sorted (map getTTL (indexSeen svr2 i)) \<longrightarrow>
              st2 = OK \<and> new = resumedBatch C svr2 i m1' \<and>
              scanPoints m2 i = Some (if new = [] then C else encode (last new)))"
proof -
  from assms(2,4) have sp: "scanPoints m1' i = Some C" by simp
  from scan_new_entries_beyond[OF sp assms(3) assms(5) assms(6)]
  obtain new where q: "expiredKeys m2 i = expiredKeys m1' i @ new"
    and gt: "\<forall>e \<in> set new. C < encode e" by blast
  have idle: "new = []" if "\<not> reachesCursor svr2 i m1'"
    using scan_idle_unless_reaches[OF that assms(6)] q by simp
  have exact: "st2 = OK \<and> new = resumedBatch C svr2 i m1' \<and>
      scanPoints m2 i = Some (if new = [] then C else encode (last new))"
    if "reachesCursor svr2 i m1'" and "sorted (map getTTL (indexSeen svr2 i))"
    using scan_resumed_exact[OF sp assms(3) assms(5) that(2) that(1) assms(6)] q by simp
  from q gt idle exact show ?thesis
    by (intro exI[of _ new]) auto
qed

theorem resume_skips_scan_point_witness:
  "\<exists>st1 m1 n calls m1' st2 m2 st3 m3.
     scanExpiredKeysJob (sampleView READ_WRITE fiveKeys) 0 (newIndexManager 1 sampleParams)
       = Some (st1, m1) \<and>
     scanPoints m1 0 = Some ''b'' \<and> ''b'' \<noteq> [] \<and>
     tryDelExpiredKeysJob 0 m1 = Some (n, calls, m1') \<and>
     scanPoints m1' 0 = scanPoints m1 0 \<and> expiredKeys m1' 0 = [] \<and>
     sorted_wrt (<) (map encode (indexSeen (sampleView READ_WRITE fiveKeys) 0)) \<and>
     sorted (map getTTL (indexSeen (sampleView READ_WRITE fiveKeys) 0)) \<and>
     reachesCursor (sampleView READ_WRITE fiveKeys) 0 m1' \<and>
     scanExpiredKeysJob (sampleView READ_WRITE fiveKeys) 0 m1' = Some (st2, m2) \<and>
     st2 = OK \<and> expiredKeys m2 0 = [sampleEntry ''c'', sampleEntry ''d''] \<and>
     scanPoints m2 0 = Some ''d'' \<and>
     sorted_wrt (<) (map encode (indexSeen (sampleView READ_WRITE threeKeys) 0)) \<and>
     sorted (map getTTL (indexSeen (sampleView READ_WRITE threeKeys) 0)) \<and>
     reachesCursor (sampleView READ_WRITE threeKeys) 0 m1' \<and>
     scanExpiredKeysJob (sampleView READ_WRITE threeKeys) 0 m1' = Some (st3, m3) \<and>
     st3 = OK \<and> expiredKeys m3 0 = [sampleEntry ''c'', sampleEntry ''d''] \<and>
     scanPoints m3 0 = Some ''d''"
proof -
  let ?v = "sampleView READ_WRITE fiveKeys"
  let ?w = "sampleView READ_WRITE threeKeys"
  have "\<exists>m1. scanExpiredKeysJob ?v 0 (newIndexManager 1 sampleParams) = Some (OK, m1) \<and>
          scanPoints m1 0 = Some ''b'' \<and>
          (\<exists>m1'. tryDelExpiredKeysJob 0 m1 = Some (2, map expireKeyIfNeeded [sampleEntry ''a'', sampleEntry ''b''], m1') \<and>
             scanPoints m1' 0 = Some ''b'' \<and> expiredKeys m1' 0 = [] \<and>
             scanBatch m1' = 2 \<and> \<not> scanJobStatus m1' 0 \<and> \<not> disableStatus m1' 0)"
    by (simp add: scanExpiredKeysJob_def scanGuarded_def scanGuard_def newIndexManager_def
        sampleParams_def sampleView_def sampleStore_def sampleEntry_def fiveKeys_def
        createTTLIndexCursor_def cursor_next_def enqueue_def scanLoop.simps
        tryDelExpiredKeysJob_def delLoop.simps popFront_def expireKeyIfNeeded_def)
  then obtain m1 m1' where
    p1: "scanExpiredKeysJob ?v 0 (newIndexManager 1 sampleParams) = Some (OK, m1)"
    and c: "scanPoints m1 0 = Some ''b''"
    and d: "tryDelExpiredKeysJob 0 m1
              = Some (2, map expireKeyIfNeeded [sampleEntry ''a'', sampleEntry ''b''], m1')"
    and c': "scanPoints m1' 0 = Some ''b''" and q: "expiredKeys m1' 0 = []"
    and b: "scanBatch m1' = 2" and f: "\<not> scanJobStatus m1' 0" "\<not> disableStatus m1' 0"
    by blast
  have ne: "''b'' \<noteq> []" by simp
  from c c' have same: "scanPoints m1' 0 = scanPoints m1 0" by simp
  have srtv: "sorted_wrt (<) (map encode (indexSeen ?v 0))"
    and ttlv: "sorted (map getTTL (indexSeen ?v 0))"
    and srtw: "sorted_wrt (<) (map encode (indexSeen ?w 0))"
    and ttlw: "sorted (map getTTL (indexSeen ?w 0))"
    by (simp_all add: indexSeen_def sampleView_def sampleStore_def fiveKeys_def threeKeys_def
          sampleEntry_def)
  have rv: "reachesCursor ?v 0 m1'" and rw: "reachesCursor ?w 0 m1'"
    using f by (simp_all add: reachesCursor_def sampleView_def sampleStore_def)
  have bv: "resumedBatch ''b'' ?v 0 m1' = [sampleEntry ''c'', sampleEntry ''d'']"
    and bw: "resumedBatch ''b'' ?w 0 m1' = [sampleEntry ''c'', sampleEntry ''d'']"
    by (simp_all add: resumedBatch_def q b indexSeen_def clockSeen_def sampleView_def
          sampleStore_def fiveKeys_def threeKeys_def sampleEntry_def)
  from c' have "scanPoints m1' 0 \<noteq> None" by simp
  from scan_returns[OF this, of ?v] scan_returns[OF this, of ?w] obtain st2 m2 st3 m3 where
    p2: "scanExpiredKeysJob ?v 0 m1' = Some (st2, m2)"
    and p3: "scanExpiredKeysJob ?w 0 m1' = Some (st3, m3)" by blast
  from resume_skips_scan_point[OF p1 c ne same srtv p2] rv ttlv
  have r2: "st2 = OK" "expiredKeys m2 0 = [sampleEntry ''c'', sampleEntry ''d'']"
    "scanPoints m2 0 = Some ''d''"
    by (auto simp: q bv sampleEntry_def)
  from resume_skips_scan_point[OF p1 c ne same srtw p3] rw ttlw
  have r3: "st3 = OK" "expiredKeys m3 0 = [sampleEntry ''c'', sampleEntry ''d'']"
    "scanPoints m3 0 = Some ''d''"
    by (auto simp: q bw sampleEntry_def)
  from p1 c ne d same q srtv ttlv rv p2 r2 srtw ttlw rw p3 r3 show ?thesis by blast
qed

subsection \<open>Storage errors\<close>

text \<open>
  Claim C4 says that the scanner returns success on every storage error. For a job that
  reaches the storage engine: when the shard lookup fails, or when the transaction cannot
  be created, the job returns that failed status and enqueues nothing; when both succeed
  the job returns OK whatever the reads of the cursor return, failed reads included.
\<close>

theorem scan_status_on_storage_errors:
  assumes "\<not> scanJobStatus m i" "\<not> disableStatus m i"
    and "\<not> (clusterEnabled svr \<and> existMigrateTask svr)"
  shows
    "(\<forall>e. getDb svr i = Inl e \<longrightarrow>
        (\<exists>m'. scanExpiredKeysJob svr i m = Some (e, m') \<and>
           expiredKeys m' = expiredKeys m \<and> scanPoints m' = scanPoints m \<and>
           totalEnqueue m' = totalEnqueue m)) \<and>
     (\<forall>store e. getDb svr i = Inr store \<and> getMode store \<noteq> REPLICATE_ONLY \<and> isOpen store \<and>
        createTransaction store = Inl e \<longrightarrow>
        (\<exists>m'. scanExpiredKeysJob svr i m = Some (e, m') \<and>
           expiredKeys m' = expiredKeys m \<and> scanPoints m' = scanPoints m \<and>
           totalEnqueue m' = totalEnqueue m)) \<and>
     (\<forall>store txn. getDb svr i = Inr store \<and> createTransaction store = Inr txn \<and>
        scanPoints m i \<noteq> None \<longrightarrow>
        (\<exists>m'. scanExpiredKeysJob svr i m = Some (OK, m')))"
  using assms
  by (auto simp: scanExpiredKeysJob_def scanGuarded_def scanGuard_def Let_def
           split: sum.splits option.splits)

theorem scan_status_on_storage_errors_witness:
  "\<not> scanJobStatus (newIndexManager 1 sampleParams) 0 \<and>
   \<not> disableStatus (newIndexManager 1 sampleParams) 0 \<and>
   \<not> (clusterEnabled lookupFails \<and> existMigrateTask lookupFails) \<and>
   \<not> (clusterEnabled txnFails \<and> existMigrateTask txnFails) \<and>
   \<not> (clusterEnabled cursorFails \<and> existMigrateTask cursorFails) \<and>
   getDb lookupFails 0 = Inl failure \<and> \<not> ok failure \<and>
   (\<exists>m'. scanExpiredKeysJob lookupFails 0 (newIndexManager 1 sampleParams)
            = Some (failure, m') \<and> expiredKeys m' 0 = []) \<and>
   (\<exists>store. getDb txnFails 0 = Inr store \<and> createTransaction store = Inl failure) \<and>
   (\<exists>m'. scanExpiredKeysJob txnFails 0 (newIndexManager 1 sampleParams)
            = Some (failure, m') \<and> expiredKeys m' 0 = []) \<and>
   (\<exists>store txn. getDb cursorFails 0 = Inr store \<and> createTransaction store = Inr txn \<and>
       cursorEnd txn = failure) \<and>
   (\<exists>m'. scanExpiredKeysJob cursorFails 0 (newIndexManager 1 sampleParams) = Some (OK, m'))"
proof -
  let ?m = "newIndexManager 1 sampleParams"
  have a: "\<not> scanJobStatus ?m 0" and b: "\<not> disableStatus ?m 0"
    and q: "expiredKeys ?m 0 = []" and sp: "scanPoints ?m 0 \<noteq> None"
    by (simp_all add: newIndexManager_def)
  have c1: "\<not> (clusterEnabled lookupFails \<and> existMigrateTask lookupFails)"
    and g1: "getDb lookupFails 0 = Inl failure"
    by (simp_all add: lookupFails_def)
  have c2: "\<not> (clusterEnabled txnFails \<and> existMigrateTask txnFails)"
    and g2: "getDb txnFails 0 = Inr ((sampleStore READ_WRITE [])\<lparr>createTransaction := Inl failure\<rparr>)
       \<and> getMode ((sampleStore READ_WRITE [])\<lparr>createTransaction := Inl failure\<rparr>) \<noteq> REPLICATE_ONLY
       \<and> isOpen ((sampleStore READ_WRITE [])\<lparr>createTransaction := Inl failure\<rparr>)
       \<and> createTransaction ((sampleStore READ_WRITE [])\<lparr>createTransaction := Inl failure\<rparr>) = Inl failure"
    by (simp_all add: txnFails_def sampleStore_def)
  have c3: "\<not> (clusterEnabled cursorFails \<and> existMigrateTask cursorFails)"
    and g3: "getDb cursorFails 0 = Inr ((sampleStore READ_WRITE [])
                \<lparr>createTransaction :=
                   Inr \<lparr>ttlIndex = [sampleEntry ''a''], cursorEnd = failure\<rparr>\<rparr>)
       \<and> createTransaction ((sampleStore READ_WRITE [])
                \<lparr>createTransaction :=
                   Inr \<lparr>ttlIndex = [sampleEntry ''a''], cursorEnd = failure\<rparr>\<rparr>)
           = Inr \<lparr>ttlIndex = [sampleEntry ''a''], cursorEnd = failure\<rparr>"
    by (simp_all add: cursorFails_def sampleStore_def)
  have f: "\<not> ok failure" by (simp add: ok_def failure_def)
  from scan_status_on_storage_errors[OF a b c1] g1 q
  have r1: "\<exists>m'. scanExpiredKeysJob lookupFails 0 ?m = Some (failure, m') \<and> expiredKeys m' 0 = []"
    by metis
  from scan_status_on_storage_errors[OF a b c2] g2 q
  have r2: "\<exists>m'. scanExpiredKeysJob txnFails 0 ?m = Some (failure, m') \<and> expiredKeys m' 0 = []"
    by metis
  from scan_status_on_storage_errors[OF a b c3] g3 sp
  have r3: "\<exists>m'. scanExpiredKeysJob cursorFails 0 ?m = Some (OK, m')"
    by blast
  from g2 have e2: "\<exists>store. getDb txnFails 0 = Inr store \<and> createTransaction store = Inl failure"
    by blast
  have e3: "\<exists>store txn. getDb cursorFails 0 = Inr store \<and>
       createTransaction store = Inr txn \<and> cursorEnd txn = failure"
    by (simp add: cursorFails_def sampleStore_def)
  from a b c1 c2 c3 g1 f r1 e2 r2 e3 r3 show ?thesis
    by (intro conjI)
qed

text \<open>
  A shard lookup that fails makes the job return the failed status, not success.
\<close>

theorem scan_status_counterexample:
  "map_option (ok \<circ> fst) (scanExpiredKeysJob lookupFails 0 (newIndexManager 1 sampleParams))
     = Some False"
  by (simp add: scanExpiredKeysJob_def scanGuarded_def newIndexManager_def lookupFails_def
        failure_def ok_def)

subsection \<open>Replica safety\<close>

lemma step_replicaQuiet:
  assumes inv: "replicaQuiet i s"
    and quiet: "\<And>svr. ev = EvServer svr \<Longrightarrow>
        modeOf svr i \<noteq> Some REPLICATE_ONLY \<or> expiredKeys (indexMgr s) i = []"
    and st: "step ev s = Some s'"
  shows "replicaQuiet i s'"
proof (cases ev)
  case (EvStartup ps)
  with st inv show ?thesis by (auto simp: replicaQuiet_def startup_def)
next
  case EvStop
  with st inv show ?thesis by (auto simp: replicaQuiet_def stop_def split: if_splits)
next
  case (EvScan j)
  with st obtain status m' where
    r: "scanExpiredKeysJob (server s) j (indexMgr s) = Some (status, m')"
    and s': "s' = s\<lparr>indexMgr := m'\<rparr>"
    by auto
  from scan_queue[OF r] obtain new where
    q: "expiredKeys m' = (expiredKeys (indexMgr s))(j := expiredKeys (indexMgr s) j @ new)"
    by blast
  have "expiredKeys m' i = []" if ro: "modeOf (server s) i = Some REPLICATE_ONLY"
  proof (cases "j = i")
    case True
    from scan_replica_noop[OF ro r[unfolded True]] inv ro show ?thesis
      by (simp add: replicaQuiet_def)
  next
    case False
    with q inv ro show ?thesis by (simp add: replicaQuiet_def)
  qed
  with inv s' show ?thesis by (simp add: replicaQuiet_def)
next
  case (EvDel j)
  with st obtain n calls m' where
    r: "tryDelExpiredKeysJob j (indexMgr s) = Some (n, calls, m')"
    and s': "s' = s\<lparr>indexMgr := m',
            expireLog := expireLog s
              @ map (\<lambda>c. \<lparr>ev_store = j, ev_mode = modeOf (server s) j, ev_call = c\<rparr>) calls\<rparr>"
    by auto
  from del_pops[OF r] obtain k where
    k: "k \<le> length (expiredKeys (indexMgr s) j)"
    and q: "expiredKeys m' = (expiredKeys (indexMgr s))(j := drop k (expiredKeys (indexMgr s) j))"
    and c: "calls = map expireKeyIfNeeded (take k (expiredKeys (indexMgr s) j))"
    by blast
  have empty: "expiredKeys m' i = []" if "modeOf (server s) i = Some REPLICATE_ONLY"
    using that inv q by (auto simp: replicaQuiet_def)
  have nocall: "calls = []" if "j = i" "modeOf (server s) i = Some REPLICATE_ONLY"
    using that inv c by (simp add: replicaQuiet_def)
  from inv empty nocall s' show ?thesis
    by (auto simp: replicaQuiet_def)
next
  case (EvStopStore j)
  with st inv show ?thesis by (auto simp: replicaQuiet_def stopStore_def)
next
  case (EvServer svr)
  with st inv quiet[OF EvServer] show ?thesis by (auto simp: replicaQuiet_def)
qed

lemma exec_replicaQuiet:
  "replicaQuiet i s \<Longrightarrow> quietSwitch i evs s \<Longrightarrow> exec evs s = Some s' \<Longrightarrow> replicaQuiet i s'"
proof (induction evs arbitrary: s)
  case Nil
  then show ?case by simp
next
  case (Cons ev evs)
  from Cons.prems(3) obtain s1 where s1: "step ev s = Some s1" and rest: "exec evs s1 = Some s'"
    by (auto split: option.splits)
  from Cons.prems(2) s1 have q1: "quietSwitch i evs s1"
    and here: "\<And>svr. ev = EvServer svr \<Longrightarrow>
        modeOf svr i \<noteq> Some REPLICATE_ONLY \<or> expiredKeys (indexMgr s) i = []"
    by auto
  from step_replicaQuiet[OF Cons.prems(1) here s1] have "replicaQuiet i s1" by blast
  from Cons.IH[OF this q1 rest] show ?case .
qed

lemma boot_replicaQuiet: "replicaQuiet i (boot N cfg svr)"
  by (simp add: replicaQuiet_def boot_def newIndexManager_def)

text \<open>
  Claim C5 says that \<^verbatim>\<open>expireKeyIfNeeded\<close> is never called for an entry of a shard that is
  REPLICATE_ONLY at the time of the call, also when the mode changes while entries are
  queued. Only the scanner looks at the mode. In every execution from the constructor's
  state in which a shard does not become REPLICATE_ONLY while entries of it are queued, no
  call is made for that shard while it is REPLICATE_ONLY.
\<close>

theorem replica_safety_when_switched_quietly:
  assumes "quietSwitch i evs (boot N cfg svr)"
    and "exec evs (boot N cfg svr) = Some s'"
  shows "\<forall>e \<in> set (expireLog s'). ev_store e = i \<longrightarrow> ev_mode e \<noteq> Some REPLICATE_ONLY"
  using exec_replicaQuiet[OF boot_replicaQuiet assms] by (simp add: replicaQuiet_def)

theorem replica_safety_when_switched_quietly_witness:
  "quietSwitch 0
     [EvScan 0, EvDel 0, EvServer (sampleView REPLICATE_ONLY [sampleEntry ''b'']), EvScan 0, EvDel 0]
     (boot 1 sampleParams (sampleView READ_WRITE [sampleEntry ''a''])) \<and>
   (\<exists>s'. exec
       [EvScan 0, EvDel 0, EvServer (sampleView REPLICATE_ONLY [sampleEntry ''b'']), EvScan 0, EvDel 0]
       (boot 1 sampleParams (sampleView READ_WRITE [sampleEntry ''a''])) = Some s' \<and>
     loggedCalls s' = [(0, Some READ_WRITE, ''a'')] \<and>
     (\<forall>e \<in> set (expireLog s'). ev_store e = 0 \<longrightarrow> ev_mode e \<noteq> Some REPLICATE_ONLY))"
proof -
  let ?evs = "[EvScan 0, EvDel 0, EvServer (sampleView REPLICATE_ONLY [sampleEntry ''b'']),
              EvScan 0, EvDel 0]"
  let ?s = "boot 1 sampleParams (sampleView READ_WRITE [sampleEntry ''a''])"
  have q: "quietSwitch 0 ?evs ?s"
    by (simp add: boot_def modeOf_def expireKeyIfNeeded_def
        scanExpiredKeysJob_def scanGuarded_def scanGuard_def newIndexManager_def
        sampleParams_def sampleView_def sampleStore_def sampleEntry_def
        createTTLIndexCursor_def cursor_next_def enqueue_def scanLoop.simps
        tryDelExpiredKeysJob_def delLoop.simps popFront_def)
  have "\<exists>s'. exec ?evs ?s = Some s' \<and> loggedCalls s' = [(0, Some READ_WRITE, ''a'')]"
    by (simp add: boot_def loggedCalls_def modeOf_def expireKeyIfNeeded_def
        scanExpiredKeysJob_def scanGuarded_def scanGuard_def newIndexManager_def
        sampleParams_def sampleView_def sampleStore_def sampleEntry_def
        createTTLIndexCursor_def cursor_next_def enqueue_def scanLoop.simps
        tryDelExpiredKeysJob_def delLoop.simps popFront_def)
  then obtain s' where e: "exec ?evs ?s = Some s'"
    and l: "loggedCalls s' = [(0, Some READ_WRITE, ''a'')]" by blast
  from replica_safety_when_switched_quietly[OF q e] q e l show ?thesis by blast
qed

text \<open>
  A shard that becomes REPLICATE_ONLY after the scanner has queued an entry: the deleter
  calls \<^verbatim>\<open>expireKeyIfNeeded\<close> for that entry while the shard is REPLICATE_ONLY.
\<close>

theorem replica_safety_counterexample:
  "map_option loggedCalls
     (exec [EvScan 0, EvServer (sampleView REPLICATE_ONLY [sampleEntry ''a'']), EvDel 0]
        (boot 1 sampleParams (sampleView READ_WRITE [sampleEntry ''a''])))
   = Some [(0, Some REPLICATE_ONLY, ''a'')]"
  by (simp add: boot_def loggedCalls_def modeOf_def expireKeyIfNeeded_def
        scanExpiredKeysJob_def scanGuarded_def scanGuard_def newIndexManager_def
        sampleParams_def sampleView_def sampleStore_def sampleEntry_def
        createTTLIndexCursor_def cursor_next_def enqueue_def scanLoop.simps
        tryDelExpiredKeysJob_def delLoop.simps popFront_def)

text \<open>
  Claim C6. When the store the scanner obtains for the shard is REPLICATE_ONLY or not
  open, the job returns OK, and the lists of expired keys, the scan points and
  \<open>totalEnqueue\<close> are as before.
\<close>

theorem scan_replica_or_closed:
  assumes "getDb svr i = Inr store"
    and "getMode store = REPLICATE_ONLY \<or> \<not> isOpen store"
  shows "\<exists>m'. scanExpiredKeysJob svr i m = Some (OK, m') \<and>
           expiredKeys m' = expiredKeys m \<and> scanPoints m' = scanPoints m \<and>
           totalEnqueue m' = totalEnqueue m"
  using assms
  by (auto simp: scanExpiredKeysJob_def scanGuarded_def scanGuard_def Let_def)

theorem scan_replica_or_closed_witness:
  "getDb (sampleView REPLICATE_ONLY [sampleEntry ''a'']) 0
     = Inr (sampleStore REPLICATE_ONLY [sampleEntry ''a'']) \<and>
   getMode (sampleStore REPLICATE_ONLY [sampleEntry ''a'']) = REPLICATE_ONLY \<and>
   (\<exists>m'. scanExpiredKeysJob (sampleView REPLICATE_ONLY [sampleEntry ''a'']) 0
            (newIndexManager 1 sampleParams) = Some (OK, m') \<and>
          expiredKeys m' 0 = [] \<and> scanPoints m' 0 = Some [] \<and> totalEnqueue m' = 0)"
proof -
  have g: "getDb (sampleView REPLICATE_ONLY [sampleEntry ''a'']) 0
     = Inr (sampleStore REPLICATE_ONLY [sampleEntry ''a''])"
    by (simp add: sampleView_def)
  have r: "getMode (sampleStore REPLICATE_ONLY [sampleEntry ''a'']) = REPLICATE_ONLY"
    by (simp add: sampleStore_def)
  from r have r': "getMode (sampleStore REPLICATE_ONLY [sampleEntry ''a'']) = REPLICATE_ONLY
      \<or> \<not> isOpen (sampleStore REPLICATE_ONLY [sampleEntry ''a''])" by simp
  from scan_replica_or_closed[OF g r', of "newIndexManager 1 sampleParams"] obtain m' where
    "scanExpiredKeysJob (sampleView REPLICATE_ONLY [sampleEntry ''a'']) 0
            (newIndexManager 1 sampleParams) = Some (OK, m')"
    "expiredKeys m' = expiredKeys (newIndexManager 1 sampleParams)"
    "scanPoints m' = scanPoints (newIndexManager 1 sampleParams)"
    "totalEnqueue m' = totalEnqueue (newIndexManager 1 sampleParams)"
    by blast
  with g r show ?thesis by (simp add: newIndexManager_def)
qed

subsection \<open>Stopping a store\<close>

text \<open>
  Claim C7. \<^verbatim>\<open>stopStore(i)\<close> returns OK and leaves shard \<open>i\<close> with an empty list of expired
  keys, an empty scan point, both job counters zero and the disabled flag set; the list,
  the scan point, the busy flags and the disabled flag of every other shard, and the two
  totals, are as before.
\<close>

theorem stopStore_frame:
  "fst (stopStore i m) = OK \<and>
   expiredKeys (snd (stopStore i m)) i = [] \<and>
   scanPoints (snd (stopStore i m)) i = Some [] \<and>
   scanJobCnt (snd (stopStore i m)) i = 0 \<and>
   delJobCnt (snd (stopStore i m)) i = 0 \<and>
   disableStatus (snd (stopStore i m)) i \<and>
   (\<forall>j. j \<noteq> i \<longrightarrow>
      expiredKeys (snd (stopStore i m)) j = expiredKeys m j \<and>
      scanPoints (snd (stopStore i m)) j = scanPoints m j \<and>
      scanJobStatus (snd (stopStore i m)) j = scanJobStatus m j \<and>
      delJobStatus (snd (stopStore i m)) j = delJobStatus m j \<and>
      disableStatus (snd (stopStore i m)) j = disableStatus m j) \<and>
   totalEnqueue (snd (stopStore i m)) = totalEnqueue m \<and>
   totalDequeue (snd (stopStore i m)) = totalDequeue m"
  by (simp add: stopStore_def)

theorem stopStore_frame_witness:
  "(1::nat) \<noteq> 0 \<and>
   expiredKeys (snd (stopStore 0 loadedManager)) 0 = [] \<and>
   scanPoints (snd (stopStore 0 loadedManager)) 0 = Some [] \<and>
   scanJobCnt (snd (stopStore 0 loadedManager)) 0 = 0 \<and>
   disableStatus (snd (stopStore 0 loadedManager)) 0 \<and>
   expiredKeys (snd (stopStore 0 loadedManager)) 1 = [sampleEntry ''a'', sampleEntry ''b''] \<and>
   scanPoints (snd (stopStore 0 loadedManager)) 1 = Some ''b'' \<and>
   scanJobStatus (snd (stopStore 0 loadedManager)) 1 \<and>
   \<not> disableStatus (snd (stopStore 0 loadedManager)) 1 \<and>
   totalEnqueue (snd (stopStore 0 loadedManager)) = 4"
  using stopStore_frame[of 0 loadedManager]
  by (simp add: loadedManager_def newIndexManager_def)

subsection \<open>The dispatch loop\<close>

lemma lockDiscipline_schedules:
  "lockDiscipline False (map (\<lambda>i. Schedule p (f i)) xs @ acts) = lockDiscipline False acts"
  by (induction xs) simp_all

lemma lockDiscipline_reads:
  "lockDiscipline True (map ReadExpiredKeys xs @ acts) = lockDiscipline True acts"
  by (induction xs) simp_all

text \<open>
  Claim C8. One iteration of the dispatch loop schedules a scanner job on the scanner pool
  for every shard below the store count, then takes the mutex, reads the lists of all
  shards and releases the mutex, then schedules a deleter job on the deleter pool for
  exactly the shards whose list was not empty, then sleeps \<open>pauseTime\<close> seconds; the
  mutex is held at every read and free at every scheduling call. The loop runs this
  iteration whenever it finds \<open>isRunning\<close> true.
\<close>

theorem dispatch_iteration:
  "runIteration N m =
     map (\<lambda>i. Schedule IndexScanner (ScanExpiredKeysJob i)) [0..<N]
       @ [LockMutex] @ map ReadExpiredKeys [0..<N] @ [UnlockMutex]
       @ map (\<lambda>i. Schedule KeyDeleter (TryDelExpiredKeysJob i))
           (filter (\<lambda>i. expiredKeys m i \<noteq> []) [0..<N])
       @ [SleepFor (pauseTime m)] \<and>
   (Schedule IndexScanner (ScanExpiredKeysJob i) \<in> set (runIteration N m)) = (i < N) \<and>
   (Schedule KeyDeleter (TryDelExpiredKeysJob i) \<in> set (runIteration N m))
      = (i < N \<and> expiredKeys m i \<noteq> []) \<and>
   Schedule IndexScanner (TryDelExpiredKeysJob i) \<notin> set (runIteration N m) \<and>
   Schedule KeyDeleter (ScanExpiredKeysJob i) \<notin> set (runIteration N m) \<and>
   distinct (runIteration N m) \<and>
   lockDiscipline False (runIteration N m) \<and>
   (isRunning m \<longrightarrow>
      run N (m # ms)
        = map_option (\<lambda>(status, acts). (status, runIteration N m @ acts)) (run N ms))"
proof -
  have shape: "runIteration N m =
     map (\<lambda>i. Schedule IndexScanner (ScanExpiredKeysJob i)) [0..<N]
       @ [LockMutex] @ map ReadExpiredKeys [0..<N] @ [UnlockMutex]
       @ map (\<lambda>i. Schedule KeyDeleter (TryDelExpiredKeysJob i))
           (filter (\<lambda>i. expiredKeys m i \<noteq> []) [0..<N])
       @ [SleepFor (pauseTime m)]"
    by (simp add: runIteration_def scheScanExpired_def schedDelExpired_def
          stored_with_expires_def)
  have tail: "lockDiscipline False
      (map (\<lambda>i. Schedule KeyDeleter (TryDelExpiredKeysJob i)) xs @ [SleepFor t])" for xs t
    by (simp add: lockDiscipline_schedules)
  have mid: "lockDiscipline True (map ReadExpiredKeys ys @ UnlockMutex # acts)
      = lockDiscipline False acts" for ys acts
    by (simp add: lockDiscipline_reads)
  have unlocked: "lockDiscipline False (runIteration N m)"
    unfolding shape by (simp add: lockDiscipline_schedules mid tail)
  have dist: "distinct (runIteration N m)"
    unfolding shape by (auto simp: distinct_map inj_on_def)
  show ?thesis
    using unlocked dist
    by (intro conjI) (auto simp: shape)
qed

theorem dispatch_iteration_witness:
  "isRunning runningManager \<and>
   run 2 [runningManager, newIndexManager 2 sampleParams]
     = Some (OK, [Schedule IndexScanner (ScanExpiredKeysJob 0),
                  Schedule IndexScanner (ScanExpiredKeysJob 1),
                  LockMutex, ReadExpiredKeys 0, ReadExpiredKeys 1, UnlockMutex,
                  Schedule KeyDeleter (TryDelExpiredKeysJob 1),
                  SleepFor 1])"
proof -
  have r: "isRunning runningManager" by (simp add: runningManager_def)
  have stop: "run 2 [newIndexManager 2 sampleParams] = Some (OK, [])"
    by (simp add: newIndexManager_def)
  have up: "[0..<2] = [0, 1]" by (simp add: upt_rec)
  note di = dispatch_iteration[of 2 runningManager 0 "[newIndexManager 2 sampleParams]"]
  from di r have "run 2 [runningManager, newIndexManager 2 sampleParams]
      = map_option (\<lambda>(status, acts). (status, runIteration 2 runningManager @ acts))
          (run 2 [newIndexManager 2 sampleParams])"
    by blast
  then have "run 2 [runningManager, newIndexManager 2 sampleParams]
          = Some (OK, runIteration 2 runningManager)"
    by (simp only: stop) simp
  moreover from di have "runIteration 2 runningManager =
     map (\<lambda>i. Schedule IndexScanner (ScanExpiredKeysJob i)) [0..<2]
       @ [LockMutex] @ map ReadExpiredKeys [0..<2] @ [UnlockMutex]
       @ map (\<lambda>i. Schedule KeyDeleter (TryDelExpiredKeysJob i))
           (filter (\<lambda>i. expiredKeys runningManager i \<noteq> []) [0..<2])
       @ [SleepFor (pauseTime runningManager)]"
    by (rule conjunct1)
  then have "runIteration 2 runningManager
     = [Schedule IndexScanner (ScanExpiredKeysJob 0),
        Schedule IndexScanner (ScanExpiredKeysJob 1),
        LockMutex, ReadExpiredKeys 0, ReadExpiredKeys 1, UnlockMutex,
        Schedule KeyDeleter (TryDelExpiredKeysJob 1),
        SleepFor 1]"
    by (simp add: up runningManager_def newIndexManager_def sampleParams_def)
  ultimately show ?thesis using r by simp
qed

subsection \<open>Startup\<close>

lemma step_keeps_running:
  assumes "ev \<noteq> EvStop" and "isRunning (indexMgr s)" and "step ev s = Some s'"
  shows "isRunning (indexMgr s')"
proof (cases ev)
  case (EvStartup ps)
  with assms show ?thesis by (auto simp: startup_def)
next
  case EvStop
  with assms show ?thesis by simp
next
  case (EvScan j)
  with assms show ?thesis by (auto simp: scan_isRunning)
next
  case (EvDel j)
  with assms show ?thesis by (auto simp: del_isRunning)
next
  case (EvStopStore j)
  with assms show ?thesis by (auto simp: stopStore_def)
next
  case (EvServer v)
  with assms show ?thesis by auto
qed

lemma exec_keeps_running:
  "EvStop \<notin> set evs \<Longrightarrow> isRunning (indexMgr s) \<Longrightarrow> exec evs s = Some s' \<Longrightarrow>
   isRunning (indexMgr s')"
proof (induction evs arbitrary: s)
  case Nil
  then show ?case by simp
next
  case (Cons ev evs)
  from Cons.prems(3) obtain s1 where s1: "step ev s = Some s1" and rest: "exec evs s1 = Some s'"
    by (auto split: option.splits)
  from Cons.prems(1) have "ev \<noteq> EvStop" by auto
  from step_keeps_running[OF this Cons.prems(2) s1] have "isRunning (indexMgr s1)" .
  with Cons.IH[of s1] Cons.prems(1) rest show ?case by simp
qed

text \<open>
  Claim C9. \<^verbatim>\<open>startup\<close> returns a failed status exactly when the start of the scanner
  pool or of the deleter pool fails; it then returns the status of the pool that failed,
  does not launch the dispatch thread and leaves \<open>isRunning\<close> as it was. When both
  pools start it returns OK with the thread launched and \<open>isRunning\<close> true, and
  \<open>isRunning\<close> stays true through every later call of the engine until \<^verbatim>\<open>stop\<close>, which
  clears it.
\<close>

theorem startup_status:
  "(\<not> ok (fst (startup poolStartup m)))
     = (\<not> ok (poolStartup ''tx-idx-scan'' (scanPoolSize m)) \<or>
        \<not> ok (poolStartup ''tx-idx-del'' (delPoolSize m))) \<and>
   (\<not> ok (poolStartup ''tx-idx-scan'' (scanPoolSize m)) \<longrightarrow>
      fst (startup poolStartup m) = poolStartup ''tx-idx-scan'' (scanPoolSize m) \<and>
      runner (snd (startup poolStartup m)) = runner m \<and>
      isRunning (snd (startup poolStartup m)) = isRunning m) \<and>
   (ok (poolStartup ''tx-idx-scan'' (scanPoolSize m)) \<and>
    \<not> ok (poolStartup ''tx-idx-del'' (delPoolSize m)) \<longrightarrow>
      fst (startup poolStartup m) = poolStartup ''tx-idx-del'' (delPoolSize m) \<and>
      runner (snd (startup poolStartup m)) = runner m \<and>
      isRunning (snd (startup poolStartup m)) = isRunning m) \<and>
   (ok (poolStartup ''tx-idx-scan'' (scanPoolSize m)) \<and>
    ok (poolStartup ''tx-idx-del'' (delPoolSize m)) \<longrightarrow>
      fst (startup poolStartup m) = OK \<and>
      runner (snd (startup poolStartup m)) \<and>
      isRunning (snd (startup poolStartup m)) \<and>
      (\<forall>evs s s'. indexMgr s = snd (startup poolStartup m) \<and> EvStop \<notin> set evs \<and>
           exec evs s = Some s' \<longrightarrow> isRunning (indexMgr s')) \<and>
      (\<exists>m'. stop (snd (startup poolStartup m)) = Some m' \<and> \<not> isRunning m'))"
proof -
  have okOK: "ok OK" by (simp add: ok_def OK_def)
  have later: "\<forall>evs s s'. indexMgr s = snd (startup poolStartup m) \<and> EvStop \<notin> set evs \<and>
           exec evs s = Some s' \<longrightarrow> isRunning (indexMgr s')"
    if "ok (poolStartup ''tx-idx-scan'' (scanPoolSize m))"
      and "ok (poolStartup ''tx-idx-del'' (delPoolSize m))"
  proof (intro allI impI)
    fix evs s s'
    assume h: "indexMgr s = snd (startup poolStartup m) \<and> EvStop \<notin> set evs \<and>
           exec evs s = Some s'"
    from that h have "isRunning (indexMgr s)" by (simp add: startup_def)
    with h show "isRunning (indexMgr s')" by (blast intro: exec_keeps_running)
  qed
  show ?thesis
    using later by (auto simp: startup_def stop_def okOK)
qed

theorem startup_status_witness:
  "\<not> ok (deleterPoolFails ''tx-idx-del'' (delPoolSize (newIndexManager 1 sampleParams))) \<and>
   fst (startup deleterPoolFails (newIndexManager 1 sampleParams)) = failure \<and>
   \<not> runner (snd (startup deleterPoolFails (newIndexManager 1 sampleParams))) \<and>
   \<not> isRunning (snd (startup deleterPoolFails (newIndexManager 1 sampleParams))) \<and>
   ok (poolsStart ''tx-idx-scan'' (scanPoolSize (newIndexManager 1 sampleParams))) \<and>
   ok (poolsStart ''tx-idx-del'' (delPoolSize (newIndexManager 1 sampleParams))) \<and>
   fst (startup poolsStart (newIndexManager 1 sampleParams)) = OK \<and>
   isRunning (snd (startup poolsStart (newIndexManager 1 sampleParams))) \<and>
   (\<exists>s'. exec [EvScan 0, EvDel 0, EvStopStore 0]
            \<lparr>indexMgr = snd (startup poolsStart (newIndexManager 1 sampleParams)),
             server = sampleView READ_WRITE fiveKeys, expireLog = []\<rparr> = Some s' \<and>
         isRunning (indexMgr s'))"
proof -
  let ?m = "newIndexManager 1 sampleParams"
  let ?s = "\<lparr>indexMgr = snd (startup poolsStart ?m),
             server = sampleView READ_WRITE fiveKeys, expireLog = []\<rparr>"
  have okOK: "ok OK" by (simp add: ok_def OK_def)
  have f1: "ok (deleterPoolFails ''tx-idx-scan'' (scanPoolSize ?m))"
    and f2: "\<not> ok (deleterPoolFails ''tx-idx-del'' (delPoolSize ?m))"
    by (simp_all add: deleterPoolFails_def ok_def OK_def failure_def)
  have g1: "ok (poolsStart ''tx-idx-scan'' (scanPoolSize ?m))"
    and g2: "ok (poolsStart ''tx-idx-del'' (delPoolSize ?m))"
    by (simp_all add: poolsStart_def okOK)
  have init: "runner ?m = False" "isRunning ?m = False"
    by (simp_all add: newIndexManager_def)
  have df: "deleterPoolFails ''tx-idx-del'' (delPoolSize ?m) = failure"
    by (simp add: deleterPoolFails_def)
  from startup_status[of deleterPoolFails ?m] f1 f2
  have bad: "fst (startup deleterPoolFails ?m) = deleterPoolFails ''tx-idx-del'' (delPoolSize ?m)"
    "runner (snd (startup deleterPoolFails ?m)) = runner ?m"
    "isRunning (snd (startup deleterPoolFails ?m)) = isRunning ?m"
    by blast+
  from startup_status[of poolsStart ?m] g1 g2
  have good: "fst (startup poolsStart ?m) = OK" "isRunning (snd (startup poolsStart ?m))"
    and later: "\<forall>evs s s'. indexMgr s = snd (startup poolsStart ?m) \<and> EvStop \<notin> set evs \<and>
           exec evs s = Some s' \<longrightarrow> isRunning (indexMgr s')"
    by blast+
  have "\<exists>s'. exec [EvScan 0, EvDel 0, EvStopStore 0] ?s = Some s'"
    by (simp add: startup_def poolsStart_def okOK
        scanExpiredKeysJob_def scanGuarded_def scanGuard_def newIndexManager_def
        sampleParams_def sampleView_def sampleStore_def sampleEntry_def fiveKeys_def
        createTTLIndexCursor_def cursor_next_def enqueue_def scanLoop.simps
        tryDelExpiredKeysJob_def delLoop.simps popFront_def)
  then obtain s' where e: "exec [EvScan 0, EvDel 0, EvStopStore 0] ?s = Some s'" ..
  have "indexMgr ?s = snd (startup poolsStart ?m) \<and>
        EvStop \<notin> set [EvScan 0, EvDel 0, EvStopStore 0]" by simp
  with later e have "isRunning (indexMgr s')" by blast
  with e f2 bad init df g1 g2 good show ?thesis by auto
qed

subsection \<open>The scan job counter\<close>

text \<open>
  Claim C10 says that every decrement of the shard's scan job counter by the guard follows
  an increment in the same call. The guard is created before the early return for a
  running migration and the increment comes after it: on that path the counter is
  decremented without having been incremented, so it ends one below its value at entry,
  and wraps around from zero.
\<close>

theorem scanJobCnt_underflow_when_migrating:
  assumes "\<not> scanJobStatus m i" "\<not> disableStatus m i"
    and "clusterEnabled svr" "existMigrateTask svr"
  shows "\<exists>m'. scanExpiredKeysJob svr i m = Some (OK, m') \<and>
           scanJobCnt m' i = scanJobCnt m i - 1 \<and> scanJobCnt m' i \<noteq> scanJobCnt m i"
  using assms by (simp add: scanExpiredKeysJob_def scanGuarded_migrating scanGuard_def)

theorem scanJobCnt_underflow_when_migrating_witness:
  "\<not> scanJobStatus (newIndexManager 1 sampleParams) 0 \<and>
   \<not> disableStatus (newIndexManager 1 sampleParams) 0 \<and>
   clusterEnabled migrating \<and> existMigrateTask migrating \<and>
   scanJobCnt (newIndexManager 1 sampleParams) 0 = 0 \<and>
   (\<exists>m'. scanExpiredKeysJob migrating 0 (newIndexManager 1 sampleParams) = Some (OK, m') \<and>
          scanJobCnt m' 0 = 4294967295)"
proof -
  have a: "\<not> scanJobStatus (newIndexManager 1 sampleParams) 0"
    and b: "\<not> disableStatus (newIndexManager 1 sampleParams) 0"
    and z: "scanJobCnt (newIndexManager 1 sampleParams) 0 = 0"
    by (simp_all add: newIndexManager_def)
  have c: "clusterEnabled migrating" and e: "existMigrateTask migrating"
    by (simp_all add: migrating_def)
  from scanJobCnt_underflow_when_migrating[OF a b c e] obtain m' where
    "scanExpiredKeysJob migrating 0 (newIndexManager 1 sampleParams) = Some (OK, m')"
    "scanJobCnt m' 0 = scanJobCnt (newIndexManager 1 sampleParams) 0 - 1"
    by blast
  with a b c e z show ?thesis by simp
qed

lemma scanJobCnt_balanced_otherwise:
  assumes "\<not> (clusterEnabled svr \<and> existMigrateTask svr)"
    and "scanExpiredKeysJob svr i m = Some (st, m')"
  shows "scanJobCnt m' = scanJobCnt m"
proof (cases "scanJobStatus m i \<or> disableStatus m i")
  case True
  with assms(2) show ?thesis by (auto simp: scanExpiredKeysJob_def split: if_splits)
next
  case False
  with assms(2) obtain m2 where g: "scanGuarded svr i (m\<lparr>scanJobStatus := (scanJobStatus m)(i := True)\<rparr>) = Some (st, m2)"
    and m': "m' = scanGuard i m2"
    by (auto simp: scanExpiredKeysJob_def)
  from scanGuarded_cnt[OF assms(1) g] show ?thesis
    by (auto simp: m' scanGuard_def)
qed

end
